theory Spec2Isabelle
  imports Main "HOL-Library.Extended_Nat" "HOL-Library.While_Combinator"
begin

section \<open>Cells and the object store (grid.py)\<close>

text \<open>
  The source encodes the state tag of a cell as its draw colour:
  WHITE is Empty, BLACK is Barrier, RED is Visited (closed), GREEN is Frontier (open),
  PURPLE is Path, ORANGE is Start and TURQUOISE is End.  (GREY is only used for the
  grid lines and is never the colour of a cell.)
\<close>

datatype color = WHITE | BLACK | RED | GREEN | PURPLE | ORANGE | TURQUOISE

datatype error = ZeroDivisionError | IndexError | KeyError

text \<open>
  Python lists hold references to \<open>Node\<close> objects, and the neighbour lists alias the
  cells of the grid, so the objects live in an explicit store.  A \<open>Node\<close> has no
  \<open>__eq__\<close> or \<open>__hash__\<close>, hence sets and dictionaries compare nodes by identity.
  One grid is live at a time (\<open>reset_grid\<close> drops the old grid together with start and
  end), so the object created by \<open>Node(i, j, ...)\<close> is given the reference \<open>(i, j)\<close>.
  Every reference denotes an object: the store is total.
\<close>

type_synonym ref = "int \<times> int"

record Node =
  row :: int
  col :: int
  node_x :: int
  node_y :: int
  color :: color
  neighbors :: "ref list"
  node_size :: int
  total_rows :: int

type_synonym store = "ref \<Rightarrow> Node"

record Grid =
  rows :: int
  width :: int
  gap :: int
  grid_nodes :: "ref list list"

definition Node_init :: "int \<Rightarrow> int \<Rightarrow> int \<Rightarrow> int \<Rightarrow> Node" where
  "Node_init r c sz tr =
     \<lparr>row = r, col = c, node_x = c * sz, node_y = r * sz, color = WHITE,
      neighbors = [], node_size = sz, total_rows = tr\<rparr>"

definition get_pos :: "Node \<Rightarrow> int \<times> int" where
  "get_pos n = (row n, col n)"

definition is_closed :: "Node \<Rightarrow> bool" where "is_closed n = (color n = RED)"
definition is_open :: "Node \<Rightarrow> bool" where "is_open n = (color n = GREEN)"
definition is_barrier :: "Node \<Rightarrow> bool" where "is_barrier n = (color n = BLACK)"
definition is_start :: "Node \<Rightarrow> bool" where "is_start n = (color n = ORANGE)"
definition is_end :: "Node \<Rightarrow> bool" where "is_end n = (color n = TURQUOISE)"

definition reset :: "Node \<Rightarrow> Node" where "reset n = n\<lparr>color := WHITE\<rparr>"
definition make_start :: "Node \<Rightarrow> Node" where "make_start n = n\<lparr>color := ORANGE\<rparr>"
definition make_closed :: "Node \<Rightarrow> Node" where "make_closed n = n\<lparr>color := RED\<rparr>"
definition make_open :: "Node \<Rightarrow> Node" where "make_open n = n\<lparr>color := GREEN\<rparr>"
definition make_barrier :: "Node \<Rightarrow> Node" where "make_barrier n = n\<lparr>color := BLACK\<rparr>"
definition make_end :: "Node \<Rightarrow> Node" where "make_end n = n\<lparr>color := TURQUOISE\<rparr>"
definition make_path :: "Node \<Rightarrow> Node" where "make_path n = n\<lparr>color := PURPLE\<rparr>"

text \<open>A method call \<open>node.m()\<close> that mutates the object behind a reference.\<close>

definition upd :: "ref \<Rightarrow> (Node \<Rightarrow> Node) \<Rightarrow> store \<Rightarrow> store" where
  "upd r f st = st(r := f (st r))"

text \<open>Python's \<open>range(n)\<close> (empty for \<open>n \<le> 0\<close>) and list indexing (negative indices
  count from the end, anything else out of range raises IndexError).\<close>

definition range_py :: "int \<Rightarrow> int list" where
  "range_py n = map int [0..<nat n]"

definition py_get :: "'a list \<Rightarrow> int \<Rightarrow> error + 'a" where
  "py_get xs i =
     (let n = int (length xs) in
      if 0 \<le> i \<and> i < n then Inr (xs ! nat i)
      else if - n \<le> i \<and> i < 0 then Inr (xs ! nat (n + i))
      else Inl IndexError)"

definition grid_get :: "ref list list \<Rightarrow> int \<Rightarrow> int \<Rightarrow> error + ref" where
  "grid_get grid i j = (case py_get grid i of Inl e \<Rightarrow> Inl e | Inr rw \<Rightarrow> py_get rw j)"

definition err_bind :: "error + 'a \<Rightarrow> ('a \<Rightarrow> error + 'b) \<Rightarrow> error + 'b" where
  "err_bind m f = (case m of Inl e \<Rightarrow> Inl e | Inr v \<Rightarrow> f v)"

subsection \<open>Grid construction\<close>

text \<open>\<open>make_grid\<close>: the inner loop builds row \<open>i\<close>, the outer loop appends the rows.\<close>

definition make_row :: "int \<Rightarrow> int \<Rightarrow> int \<Rightarrow> store \<Rightarrow> store \<times> ref list" where
  "make_row i gp n st =
     foldl (\<lambda>(s, rw) j. (s((i, j) := Node_init i j gp n), rw @ [(i, j)])) (st, []) (range_py n)"

definition make_grid :: "int \<Rightarrow> int \<Rightarrow> store \<Rightarrow> store \<times> ref list list" where
  "make_grid gp n st =
     foldl (\<lambda>(s, g) i. case make_row i gp n s of (s', rw) \<Rightarrow> (s', g @ [rw])) (st, []) (range_py n)"

text \<open>\<open>Grid.__init__\<close>: \<open>width // rows\<close> raises ZeroDivisionError when \<open>rows\<close> is zero;
  Python's floor division is \<open>div\<close> on \<open>int\<close>.\<close>

definition Grid_init :: "int \<Rightarrow> int \<Rightarrow> store \<Rightarrow> error + (store \<times> Grid)" where
  "Grid_init n w st =
     (if n = 0 then Inl ZeroDivisionError
      else let gp = w div n in
           case make_grid gp n st of
             (st', g) \<Rightarrow> Inr (st', \<lparr>rows = n, width = w, gap = gp, grid_nodes = g\<rparr>))"

subsection \<open>Neighbour refresh\<close>

text \<open>One of the four blocks of \<open>update_neighbors\<close>: the bounds test \<open>inb\<close> guards the
  indexing (\<open>and\<close> short-circuits), then the cell is appended unless it is a barrier.\<close>

definition check_neighbor ::
  "bool \<Rightarrow> int \<Rightarrow> int \<Rightarrow> ref \<Rightarrow> ref list list \<Rightarrow> store \<Rightarrow> error + store" where
  "check_neighbor inb i j self grid st =
     (if \<not> inb then Inr st
      else case grid_get grid i j of
             Inl e \<Rightarrow> Inl e
           | Inr r \<Rightarrow>
               if is_barrier (st r) then Inr st
               else Inr (upd self (\<lambda>n. n\<lparr>neighbors := neighbors n @ [r]\<rparr>) st))"

definition update_neighbors :: "ref \<Rightarrow> ref list list \<Rightarrow> store \<Rightarrow> error + store" where
  "update_neighbors self grid st =
     (let st0 = upd self (\<lambda>n. n\<lparr>neighbors := []\<rparr>) st;
          r = row (st0 self); c = col (st0 self); t = total_rows (st0 self)
      in err_bind (check_neighbor (r < t - 1) (r + 1) c self grid st0) (\<lambda>st1.
         err_bind (check_neighbor (r > 0) (r - 1) c self grid st1) (\<lambda>st2.
         err_bind (check_neighbor (c < t - 1) r (c + 1) self grid st2) (\<lambda>st3.
         check_neighbor (c > 0) r (c - 1) self grid st3))))"

definition update_all_neighbors :: "Grid \<Rightarrow> store \<Rightarrow> error + store" where
  "update_all_neighbors G st =
     foldl (\<lambda>acc node. err_bind acc (update_neighbors node (grid_nodes G)))
       (Inr st) (concat (grid_nodes G))"

subsection \<open>Clearing the visualised path\<close>

definition clear_node :: "store \<Rightarrow> ref \<Rightarrow> store" where
  "clear_node st r =
     (if \<not> (is_start (st r) \<or> is_end (st r) \<or> is_barrier (st r)) then upd r reset st else st)"

text \<open>\<open>start_node\<close> and \<open>end_node\<close> may be \<open>None\<close>; a \<open>Node\<close> object is always truthy.\<close>

definition clear_path_nodes :: "Grid \<Rightarrow> ref option \<Rightarrow> ref option \<Rightarrow> store \<Rightarrow> store" where
  "clear_path_nodes G start_node end_node st =
     (let st1 = foldl clear_node st (concat (grid_nodes G));
          st2 = (case start_node of None \<Rightarrow> st1 | Some s \<Rightarrow> upd s make_start st1);
          st3 = (case end_node of None \<Rightarrow> st2 | Some e \<Rightarrow> upd e make_end st2)
      in st3)"

subsection \<open>Well-formed grids\<close>

text \<open>The shape \<open>make_grid\<close> produces: the cell at place \<open>(i, j)\<close> is the object \<open>(i, j)\<close>,
  and it knows its own place and the dimension of the grid.\<close>

definition grid_refs :: "int \<Rightarrow> ref list list" where
  "grid_refs n = map (\<lambda>i. map (\<lambda>j. (i, j)) (range_py n)) (range_py n)"

definition in_bounds :: "int \<Rightarrow> ref \<Rightarrow> bool" where
  "in_bounds n r = (0 \<le> fst r \<and> fst r < n \<and> 0 \<le> snd r \<and> snd r < n)"

definition well_formed :: "Grid \<Rightarrow> store \<Rightarrow> bool" where
  "well_formed G st =
     (grid_nodes G = grid_refs (rows G) \<and>
      (\<forall>r. in_bounds (rows G) r \<longrightarrow>
         row (st r) = fst r \<and> col (st r) = snd r \<and> total_rows (st r) = rows G))"

text \<open>The candidate neighbours of a cell in the order of the source: down, up, right, left.\<close>

definition candidates :: "ref \<Rightarrow> ref list" where
  "candidates r = [(fst r + 1, snd r), (fst r - 1, snd r), (fst r, snd r + 1), (fst r, snd r - 1)]"

definition open_neighbors :: "int \<Rightarrow> store \<Rightarrow> ref \<Rightarrow> ref list" where
  "open_neighbors n st r = filter (\<lambda>q. in_bounds n q \<and> \<not> is_barrier (st q)) (candidates r)"

text \<open>The cell \<open>r\<close> after its neighbour list has been refreshed against the store.\<close>

definition set_neighbors :: "int \<Rightarrow> store \<Rightarrow> ref \<Rightarrow> Node" where
  "set_neighbors n st r = (st r)\<lparr>neighbors := open_neighbors n st r\<rparr>"

text \<open>Sample stores for evaluating the operations on concrete grids.\<close>

definition blank_store :: store where
  "blank_store = (\<lambda>_. Node_init 0 0 0 0)"

definition demo_store :: store where
  "demo_store = (\<lambda>r. (Node_init (fst r) (snd r) 300 2)
       \<lparr>color := (if r = (0, 0) then ORANGE else if r = (1, 1) then TURQUOISE
                  else if r = (0, 1) then BLACK else RED)\<rparr>)"

text \<open>A cell that \<open>clear_path_nodes\<close> leaves alone: tagged Start, End or Barrier.\<close>

definition tagged :: "Node \<Rightarrow> bool" where
  "tagged n = (is_start n \<or> is_end n \<or> is_barrier n)"

section \<open>Heuristics (utils/heuristics.py)\<close>

definition manhattan :: "int \<times> int \<Rightarrow> int \<times> int \<Rightarrow> int" where
  "manhattan p1 p2 = \<bar>fst p1 - fst p2\<bar> + \<bar>snd p1 - snd p2\<bar>"

definition diagonal :: "int \<times> int \<Rightarrow> int \<times> int \<Rightarrow> int" where
  "diagonal p1 p2 = max \<bar>fst p1 - fst p2\<bar> \<bar>snd p1 - snd p2\<bar>"

text \<open>\<open>h\<close> as the search engine calls it, with \<open>method="manhattan"\<close>: neither of the
  two earlier branches of the dispatch is taken, and the result is an integer.\<close>

definition h :: "int \<times> int \<Rightarrow> int \<times> int \<Rightarrow> int" where
  "h p1 p2 = manhattan p1 p2"

section \<open>The search engine (algorithms.py)\<close>

text \<open>The value an algorithm returns: \<open>(found, visited_nodes_count, path_length)\<close>.\<close>

type_synonym result = "bool \<times> nat \<times> nat"

subsection \<open>Loops, pause and quit\<close>

text \<open>A \<open>while\<close> loop whose body is \<open>c\<close> and whose test is \<open>b\<close>; a loop that never
  leaves is \<open>None\<close>.\<close>

partial_function (option) loop :: "('s \<Rightarrow> bool) \<Rightarrow> ('s \<Rightarrow> 's) \<Rightarrow> 's \<Rightarrow> 's option" where
  "loop b c s = (if b s then loop b c (c s) else Some s)"

declare loop.simps [code]

text \<open>
  Every iteration of a search loop begins with the pause block.  What the block does is an
  input of the run, one signal per iteration: \<open>Go\<close> when \<open>paused_ref[0]\<close> is clear (or is
  cleared again before a QUIT event arrives), \<open>Quit\<close> when the flag is set and a QUIT event
  is polled (the function returns at once), \<open>Hang\<close> when the flag is set and neither
  happens (the function never returns).  When the signals are used up the flag stays clear.
  The drawing callback and the delays do not touch the state of the search.
\<close>

datatype signal = Go | Quit | Hang

datatype 's outcome = Finished 's | Cancelled 's

fun run_loop :: "signal list \<Rightarrow> ('s \<Rightarrow> bool) \<Rightarrow> ('s \<Rightarrow> 's) \<Rightarrow> 's \<Rightarrow> 's outcome option" where
  "run_loop [] b c s = map_option Finished (loop b c s)"
| "run_loop (x # xs) b c s =
     (if \<not> b s then Some (Finished s)
      else case x of
             Go \<Rightarrow> run_loop xs b c (c s)
           | Quit \<Rightarrow> Some (Cancelled s)
           | Hang \<Rightarrow> None)"

subsection \<open>Path reconstruction\<close>

partial_function (option) reconstruct_loop ::
  "(ref \<rightharpoonup> ref) \<Rightarrow> ref \<Rightarrow> ref list \<Rightarrow> store \<Rightarrow> (ref list \<times> store) option" where
  "reconstruct_loop cf current path_nodes st =
     (case cf current of
        None \<Rightarrow> Some (path_nodes, st)
      | Some p \<Rightarrow>
          if \<not> is_start (st p)
          then reconstruct_loop cf p (path_nodes @ [p]) (upd p make_path st)
          else reconstruct_loop cf p path_nodes st)"

declare reconstruct_loop.simps [code]

definition reconstruct_path :: "(ref \<rightharpoonup> ref) \<Rightarrow> ref \<Rightarrow> store \<Rightarrow> (ref list \<times> store) option" where
  "reconstruct_path cf current st = reconstruct_loop cf current [] st"

subsection \<open>The state of a run\<close>

text \<open>\<open>reached\<close> records that the dequeued cell was the end cell: the loop is left and
  the path is reconstructed.\<close>

record search_state =
  nodes :: store
  came_from :: "ref \<rightharpoonup> ref"
  visited_nodes_count :: nat
  reached :: bool

record disc_state = search_state +
  visited :: "ref set"

record bfs_state = disc_state +
  queue :: "ref list"

record dfs_state = disc_state +
  stack :: "ref list"

type_synonym entry = "enat \<times> nat \<times> ref"

text \<open>\<open>float("inf")\<close> is \<open>\<infinity>\<close>; every other score is a natural number.  \<open>raised\<close> holds
  the exception that ended the run, if any.\<close>

record pq_state = search_state +
  g_score :: "ref \<rightharpoonup> enat"
  count :: nat
  open_set :: "entry list"
  open_set_hash :: "ref set"
  raised :: "error option"

record astar_state = pq_state +
  f_score :: "ref \<rightharpoonup> enat"

text \<open>The code after the loop, the same in all four algorithms: a cancelled run and an
  exhausted frontier report \<open>(False, visited_nodes_count, 0)\<close>; when the end cell was
  dequeued the path is reconstructed and the End and Start tags are set again.\<close>

fun finish :: "ref \<Rightarrow> ref \<Rightarrow> ('a search_state_scheme) outcome \<Rightarrow> (store \<times> result) option" where
  "finish start_node end_node (Cancelled s) = Some (nodes s, (False, visited_nodes_count s, 0))"
| "finish start_node end_node (Finished s) =
     (if reached s
      then case reconstruct_path (came_from s) end_node (nodes s) of
             None \<Rightarrow> None
           | Some (path_nodes, st') \<Rightarrow>
               Some (upd start_node make_start (upd end_node make_end st'),
                     (True, visited_nodes_count s, length path_nodes + 1))
      else Some (nodes s, (False, visited_nodes_count s, 0)))"

subsection \<open>BFS\<close>

definition bfs_visit :: "ref \<Rightarrow> ref \<Rightarrow> bfs_state \<Rightarrow> ref \<Rightarrow> bfs_state" where
  "bfs_visit current end_node s neighbor =
     (if neighbor \<notin> visited s \<and> \<not> is_barrier (nodes s neighbor)
      then s\<lparr>visited := insert neighbor (visited s),
             came_from := (came_from s)(neighbor \<mapsto> current),
             queue := queue s @ [neighbor],
             nodes := (if neighbor \<noteq> end_node then upd neighbor make_open (nodes s)
                       else nodes s)\<rparr>
      else s)"

definition bfs_step :: "ref \<Rightarrow> ref \<Rightarrow> bfs_state \<Rightarrow> bfs_state" where
  "bfs_step start_node end_node s =
     (let current = hd (queue s);
          s0 = s\<lparr>queue := tl (queue s)\<rparr>
      in if current = end_node then s0\<lparr>reached := True\<rparr>
         else let s1 = foldl (bfs_visit current end_node) s0 (neighbors (nodes s0 current))
              in if current \<noteq> start_node \<and> current \<noteq> end_node
                 then s1\<lparr>nodes := upd current make_closed (nodes s1),
                         visited_nodes_count := visited_nodes_count s1 + 1\<rparr>
                 else s1)"

definition bfs_running :: "bfs_state \<Rightarrow> bool" where
  "bfs_running s = (queue s \<noteq> [] \<and> \<not> reached s)"

definition bfs_init :: "ref \<Rightarrow> store \<Rightarrow> bfs_state" where
  "bfs_init start_node st =
     \<lparr>nodes = st, came_from = Map.empty, visited_nodes_count = 0, reached = False,
      visited = {start_node}, queue = [start_node]\<rparr>"

definition bfs :: "signal list \<Rightarrow> ref list list \<Rightarrow> ref \<Rightarrow> ref \<Rightarrow> store \<Rightarrow> (store \<times> result) option" where
  "bfs sigs grid start_node end_node st =
     (case run_loop sigs bfs_running (bfs_step start_node end_node) (bfs_init start_node st) of
        None \<Rightarrow> None
      | Some out \<Rightarrow> finish start_node end_node out)"

subsection \<open>DFS\<close>

definition dfs_visit :: "ref \<Rightarrow> ref \<Rightarrow> dfs_state \<Rightarrow> ref \<Rightarrow> dfs_state" where
  "dfs_visit current end_node s neighbor =
     (if neighbor \<notin> visited s \<and> \<not> is_barrier (nodes s neighbor)
      then s\<lparr>visited := insert neighbor (visited s),
             came_from := (came_from s)(neighbor \<mapsto> current),
             stack := stack s @ [neighbor],
             nodes := (if neighbor \<noteq> end_node then upd neighbor make_open (nodes s)
                       else nodes s)\<rparr>
      else s)"

definition dfs_step :: "ref \<Rightarrow> ref \<Rightarrow> dfs_state \<Rightarrow> dfs_state" where
  "dfs_step start_node end_node s =
     (let current = last (stack s);
          s0 = s\<lparr>stack := butlast (stack s)\<rparr>
      in if current = end_node then s0\<lparr>reached := True\<rparr>
         else let s1 = (if current \<noteq> start_node \<and> current \<noteq> end_node
                        then s0\<lparr>nodes := upd current make_closed (nodes s0),
                                visited_nodes_count := visited_nodes_count s0 + 1\<rparr>
                        else s0)
              in foldl (dfs_visit current end_node) s1 (rev (neighbors (nodes s1 current))))"

definition dfs_running :: "dfs_state \<Rightarrow> bool" where
  "dfs_running s = (stack s \<noteq> [] \<and> \<not> reached s)"

definition dfs_init :: "ref \<Rightarrow> store \<Rightarrow> dfs_state" where
  "dfs_init start_node st =
     \<lparr>nodes = st, came_from = Map.empty, visited_nodes_count = 0, reached = False,
      visited = {start_node}, stack = [start_node]\<rparr>"

definition dfs :: "signal list \<Rightarrow> ref list list \<Rightarrow> ref \<Rightarrow> ref \<Rightarrow> store \<Rightarrow> (store \<times> result) option" where
  "dfs sigs grid start_node end_node st =
     (case run_loop sigs dfs_running (dfs_step start_node end_node) (dfs_init start_node st) of
        None \<Rightarrow> None
      | Some out \<Rightarrow> finish start_node end_node out)"

subsection \<open>The priority queue\<close>

text \<open>
  \<open>heapq\<close> compares the tuples \<open>(score, count, node)\<close> lexicographically.  The counts of
  the entries of one heap differ pairwise, so the comparison never reaches the nodes
  (whose \<open>__lt__\<close> answers \<open>False\<close>), the entries are totally ordered, and \<open>heappop\<close>
  returns the least of them whatever the layout of the heap array: the heap is a list,
  and popping removes its least entry.  \<open>heappop\<close> on an empty heap raises IndexError.
\<close>

definition entry_less :: "entry \<Rightarrow> entry \<Rightarrow> bool" where
  "entry_less a b = (fst a < fst b \<or> (fst a = fst b \<and> fst (snd a) < fst (snd b)))"

definition heappush :: "entry list \<Rightarrow> entry \<Rightarrow> entry list" where
  "heappush hp e = hp @ [e]"

definition heappop :: "entry list \<Rightarrow> (entry \<times> entry list) option" where
  "heappop hp =
     (case hp of
        [] \<Rightarrow> None
      | e # es \<Rightarrow>
          let m = foldl (\<lambda>m x. if entry_less x m then x else m) e es
          in Some (m, remove1 m hp))"

text \<open>Leaving the function through the tail shared with BFS and DFS, or through an
  exception.\<close>

definition pq_finish ::
  "ref \<Rightarrow> ref \<Rightarrow> ('a pq_state_scheme) outcome \<Rightarrow> (store \<times> (error + result)) option" where
  "pq_finish start_node end_node out =
     (case out of
        Cancelled s \<Rightarrow> map_option (\<lambda>(st', r). (st', Inr r)) (finish start_node end_node out)
      | Finished s \<Rightarrow>
          (case raised s of
             Some e \<Rightarrow> Some (nodes s, Inl e)
           | None \<Rightarrow> map_option (\<lambda>(st', r). (st', Inr r)) (finish start_node end_node out)))"

definition pq_running :: "'a pq_state_scheme \<Rightarrow> bool" where
  "pq_running s = (open_set s \<noteq> [] \<and> \<not> reached s \<and> raised s = None)"

text \<open>\<open>{node: float("inf") for row in grid for node in row}\<close>\<close>

definition inf_scores :: "ref list list \<Rightarrow> (ref \<rightharpoonup> enat)" where
  "inf_scores grid = (\<lambda>n. if n \<in> set (concat grid) then Some \<infinity> else None)"

subsection \<open>Dijkstra\<close>

definition dijkstra_relax :: "ref \<Rightarrow> ref \<Rightarrow> pq_state \<Rightarrow> ref \<Rightarrow> pq_state" where
  "dijkstra_relax current end_node s neighbor =
     (if raised s \<noteq> None then s
      else if is_barrier (nodes s neighbor) then s
      else case g_score s current of
             None \<Rightarrow> s\<lparr>raised := Some KeyError\<rparr>
           | Some gc \<Rightarrow>
               let temp_g_score = gc + 1 in
               case g_score s neighbor of
                 None \<Rightarrow> s\<lparr>raised := Some KeyError\<rparr>
               | Some gn \<Rightarrow>
                   if temp_g_score < gn
                   then let s1 = s\<lparr>came_from := (came_from s)(neighbor \<mapsto> current),
                                    g_score := (g_score s)(neighbor \<mapsto> temp_g_score)\<rparr>
                        in if neighbor \<notin> open_set_hash s1
                           then s1\<lparr>count := count s1 + 1,
                                   open_set := heappush (open_set s1)
                                                 (temp_g_score, count s1 + 1, neighbor),
                                   open_set_hash := insert neighbor (open_set_hash s1),
                                   nodes := (if neighbor \<noteq> end_node
                                             then upd neighbor make_open (nodes s1)
                                             else nodes s1)\<rparr>
                           else s1
                   else s)"

definition dijkstra_step :: "ref \<Rightarrow> ref \<Rightarrow> pq_state \<Rightarrow> pq_state" where
  "dijkstra_step start_node end_node s =
     (case heappop (open_set s) of
        None \<Rightarrow> s\<lparr>raised := Some IndexError\<rparr>
      | Some ((current_g_score, tie_breaker, current), rest) \<Rightarrow>
          let s0 = s\<lparr>open_set := rest\<rparr> in
          if current \<notin> open_set_hash s0 then s0\<lparr>raised := Some KeyError\<rparr>
          else
            let s1 = s0\<lparr>open_set_hash := open_set_hash s0 - {current}\<rparr> in
            case g_score s1 current of
              None \<Rightarrow> s1\<lparr>raised := Some KeyError\<rparr>
            | Some g \<Rightarrow>
                if current_g_score > g then s1
                else if current = end_node then s1\<lparr>reached := True\<rparr>
                else
                  let s2 = foldl (dijkstra_relax current end_node) s1
                             (neighbors (nodes s1 current))
                  in if raised s2 \<noteq> None then s2
                     else if current \<noteq> start_node \<and> current \<noteq> end_node
                     then s2\<lparr>nodes := upd current make_closed (nodes s2),
                             visited_nodes_count := visited_nodes_count s2 + 1\<rparr>
                     else s2)"

definition dijkstra_init :: "ref list list \<Rightarrow> ref \<Rightarrow> store \<Rightarrow> pq_state" where
  "dijkstra_init grid start_node st =
     \<lparr>nodes = st, came_from = Map.empty, visited_nodes_count = 0, reached = False,
      g_score = (inf_scores grid)(start_node \<mapsto> 0), count = 0,
      open_set = [(0, 0, start_node)], open_set_hash = {start_node}, raised = None\<rparr>"

definition dijkstra ::
  "signal list \<Rightarrow> ref list list \<Rightarrow> ref \<Rightarrow> ref \<Rightarrow> store \<Rightarrow> (store \<times> (error + result)) option" where
  "dijkstra sigs grid start_node end_node st =
     (case run_loop sigs pq_running (dijkstra_step start_node end_node)
             (dijkstra_init grid start_node st) of
        None \<Rightarrow> None
      | Some out \<Rightarrow> pq_finish start_node end_node out)"

subsection \<open>A*\<close>

text \<open>The heuristic is a sum of absolute values, hence not negative: it is added to the
  score as a natural number.\<close>

definition h_score :: "store \<Rightarrow> ref \<Rightarrow> ref \<Rightarrow> enat" where
  "h_score st n end_node = enat (nat (h (get_pos (st n)) (get_pos (st end_node))))"

definition astar_relax :: "ref \<Rightarrow> ref \<Rightarrow> astar_state \<Rightarrow> ref \<Rightarrow> astar_state" where
  "astar_relax current end_node s neighbor =
     (if raised s \<noteq> None then s
      else if is_barrier (nodes s neighbor) then s
      else case g_score s current of
             None \<Rightarrow> s\<lparr>raised := Some KeyError\<rparr>
           | Some gc \<Rightarrow>
               let temp_g_score = gc + 1 in
               case g_score s neighbor of
                 None \<Rightarrow> s\<lparr>raised := Some KeyError\<rparr>
               | Some gn \<Rightarrow>
                   if temp_g_score < gn
                   then let fn = temp_g_score + h_score (nodes s) neighbor end_node;
                            s1 = s\<lparr>came_from := (came_from s)(neighbor \<mapsto> current),
                                    g_score := (g_score s)(neighbor \<mapsto> temp_g_score),
                                    f_score := (f_score s)(neighbor \<mapsto> fn)\<rparr>
                        in if neighbor \<notin> open_set_hash s1
                           then s1\<lparr>count := count s1 + 1,
                                   open_set := heappush (open_set s1) (fn, count s1 + 1, neighbor),
                                   open_set_hash := insert neighbor (open_set_hash s1),
                                   nodes := (if neighbor \<noteq> end_node
                                             then upd neighbor make_open (nodes s1)
                                             else nodes s1)\<rparr>
                           else s1
                   else s)"

definition astar_step :: "ref \<Rightarrow> ref \<Rightarrow> astar_state \<Rightarrow> astar_state" where
  "astar_step start_node end_node s =
     (case heappop (open_set s) of
        None \<Rightarrow> s\<lparr>raised := Some IndexError\<rparr>
      | Some ((current_f_score, tie_breaker, current), rest) \<Rightarrow>
          let s0 = s\<lparr>open_set := rest\<rparr> in
          if current \<notin> open_set_hash s0 then s0\<lparr>raised := Some KeyError\<rparr>
          else
            let s1 = s0\<lparr>open_set_hash := open_set_hash s0 - {current}\<rparr> in
            case f_score s1 current of
              None \<Rightarrow> s1\<lparr>raised := Some KeyError\<rparr>
            | Some f \<Rightarrow>
                if current_f_score > f then s1
                else if current = end_node then s1\<lparr>reached := True\<rparr>
                else
                  let s2 = foldl (astar_relax current end_node) s1
                             (neighbors (nodes s1 current))
                  in if raised s2 \<noteq> None then s2
                     else if current \<noteq> start_node \<and> current \<noteq> end_node
                     then s2\<lparr>nodes := upd current make_closed (nodes s2),
                             visited_nodes_count := visited_nodes_count s2 + 1\<rparr>
                     else s2)"

definition astar_init :: "ref list list \<Rightarrow> ref \<Rightarrow> ref \<Rightarrow> store \<Rightarrow> astar_state" where
  "astar_init grid start_node end_node st =
     \<lparr>nodes = st, came_from = Map.empty, visited_nodes_count = 0, reached = False,
      g_score = (inf_scores grid)(start_node \<mapsto> 0), count = 0,
      open_set = [(0, 0, start_node)], open_set_hash = {start_node}, raised = None,
      f_score = (inf_scores grid)(start_node \<mapsto> h_score st start_node end_node)\<rparr>"

definition astar ::
  "signal list \<Rightarrow> ref list list \<Rightarrow> ref \<Rightarrow> ref \<Rightarrow> store \<Rightarrow> (store \<times> (error + result)) option" where
  "astar sigs grid start_node end_node st =
     (case run_loop sigs pq_running (astar_step start_node end_node)
             (astar_init grid start_node end_node st) of
        None \<Rightarrow> None
      | Some out \<Rightarrow> pq_finish start_node end_node out)"

section \<open>The control layer (main.py)\<close>

text \<open>The start button: \<open>clear_path\<close> (which also clears the pause flag, and nothing sets
  it during the run, so every signal is \<open>Go\<close>), the neighbour refresh, then the selected
  algorithm.\<close>

datatype algorithm = BFS | DFS | Dijkstra | AStar

definition run_selected ::
  "algorithm \<Rightarrow> ref list list \<Rightarrow> ref \<Rightarrow> ref \<Rightarrow> store \<Rightarrow> (store \<times> (error + result)) option" where
  "run_selected alg grid start_node end_node st =
     (case alg of
        BFS \<Rightarrow> map_option (\<lambda>(st', r). (st', Inr r)) (bfs [] grid start_node end_node st)
      | DFS \<Rightarrow> map_option (\<lambda>(st', r). (st', Inr r)) (dfs [] grid start_node end_node st)
      | Dijkstra \<Rightarrow> dijkstra [] grid start_node end_node st
      | AStar \<Rightarrow> astar [] grid start_node end_node st)"

definition start_search ::
  "algorithm \<Rightarrow> Grid \<Rightarrow> ref \<Rightarrow> ref \<Rightarrow> store \<Rightarrow> (store \<times> (error + result)) option" where
  "start_search alg G start_node end_node st =
     (let st1 = clear_path_nodes G (Some start_node) (Some end_node) st in
      case update_all_neighbors G st1 of
        Inl e \<Rightarrow> Some (st1, Inl e)
      | Inr st2 \<Rightarrow> run_selected alg (grid_nodes G) start_node end_node st2)"

text \<open>A session from a fresh grid of \<open>n\<close> rows (600 pixels wide, as in the source): the
  user marks the start cell, the end cell and the barriers, and presses the start button.
  The value is what the run reports.\<close>

definition scenario :: "int \<Rightarrow> ref list \<Rightarrow> ref \<Rightarrow> ref \<Rightarrow> (store \<times> Grid) option" where
  "scenario n bars start_node end_node =
     (case Grid_init n 600 blank_store of
        Inl e \<Rightarrow> None
      | Inr (st, G) \<Rightarrow>
          Some (foldl (\<lambda>s b. upd b make_barrier s)
                  (upd end_node make_end (upd start_node make_start st)) bars, G))"

definition run_scenario ::
  "algorithm \<Rightarrow> int \<Rightarrow> ref list \<Rightarrow> ref \<Rightarrow> ref \<Rightarrow> (error + result) option" where
  "run_scenario alg n bars start_node end_node =
     (case scenario n bars start_node end_node of
        None \<Rightarrow> None
      | Some (st, G) \<Rightarrow> map_option snd (start_search alg G start_node end_node st))"

text \<open>The store the start button hands to the algorithm in such a session, in closed form:
  the cells of the grid carry their tags and their refreshed neighbour lists.\<close>

definition marked :: "int \<Rightarrow> ref list \<Rightarrow> ref \<Rightarrow> ref \<Rightarrow> store" where
  "marked n bars start_node end_node =
     (\<lambda>r. if in_bounds n r
          then (Node_init (fst r) (snd r) (600 div n) n)
                 \<lparr>color := (if r \<in> set bars then BLACK
                            else if r = end_node then TURQUOISE
                            else if r = start_node then ORANGE else WHITE)\<rparr>
          else blank_store r)"

definition grid_store :: "int \<Rightarrow> ref list \<Rightarrow> ref \<Rightarrow> ref \<Rightarrow> store" where
  "grid_store n bars start_node end_node =
     (\<lambda>r. if in_bounds n r
          then set_neighbors n (marked n bars start_node end_node) r
          else marked n bars start_node end_node r)"

section \<open>Notions used in the statements\<close>

text \<open>\<open>runs b c s k\<close>: from the state \<open>s\<close> the loop performs at least \<open>k\<close> iterations; the
  state before iteration \<open>k\<close> (counted from 0) is \<open>(c ^^ k) s\<close>.\<close>

fun runs :: "('s \<Rightarrow> bool) \<Rightarrow> ('s \<Rightarrow> 's) \<Rightarrow> 's \<Rightarrow> nat \<Rightarrow> bool" where
  "runs b c s 0 = True"
| "runs b c s (Suc k) = (b s \<and> runs b c (c s) k)"

fun state_of :: "'s outcome \<Rightarrow> 's" where
  "state_of (Finished s) = s"
| "state_of (Cancelled s) = s"

fun cancelled :: "'s outcome \<Rightarrow> bool" where
  "cancelled (Finished s) = False"
| "cancelled (Cancelled s) = True"

text \<open>tags of start and end stay\<close>

definition keeps :: "store \<Rightarrow> ref \<Rightarrow> ref \<Rightarrow> store \<Rightarrow> bool" where
  "keeps st0 a b st = (color (st a) = color (st0 a) \<and> color (st b) = color (st0 b))"

definition disc_inv :: "store \<Rightarrow> ref \<Rightarrow> ref \<Rightarrow> 'a disc_state_scheme \<Rightarrow> bool" where
  "disc_inv st0 a b s = (a \<in> visited s \<and> keeps st0 a b (nodes s))"

definition pq_inv :: "store \<Rightarrow> ref \<Rightarrow> ref \<Rightarrow> 'a pq_state_scheme \<Rightarrow> bool" where
  "pq_inv st0 a b s = (g_score s a = Some 0 \<and> keeps st0 a b (nodes s))"

text \<open>The iterations among the first \<open>k\<close> whose state satisfies \<open>P\<close>.\<close>

definition expansions :: "('s \<Rightarrow> bool) \<Rightarrow> ('s \<Rightarrow> 's) \<Rightarrow> 's \<Rightarrow> nat \<Rightarrow> nat" where
  "expansions P c s k = length (filter (\<lambda>i. P ((c ^^ i) s)) [0..<k])"

text \<open>The iteration that begins in state \<open>s\<close> dequeues a cell, expands it (it is not the
  end cell, and for the priority queues its entry is not stale and no exception ends the
  iteration) and the cell is neither start nor end.\<close>

definition bfs_counts :: "ref \<Rightarrow> ref \<Rightarrow> bfs_state \<Rightarrow> bool" where
  "bfs_counts start_node end_node s =
     (hd (queue s) \<noteq> end_node \<and> hd (queue s) \<noteq> start_node)"

definition dfs_counts :: "ref \<Rightarrow> ref \<Rightarrow> dfs_state \<Rightarrow> bool" where
  "dfs_counts start_node end_node s =
     (last (stack s) \<noteq> end_node \<and> last (stack s) \<noteq> start_node)"

definition dijkstra_counts :: "ref \<Rightarrow> ref \<Rightarrow> pq_state \<Rightarrow> bool" where
  "dijkstra_counts start_node end_node s =
     (case heappop (open_set s) of
        None \<Rightarrow> False
      | Some ((current_g_score, tie_breaker, current), rest) \<Rightarrow>
          current \<in> open_set_hash s \<and>
          (case g_score s current of None \<Rightarrow> False | Some g \<Rightarrow> \<not> current_g_score > g) \<and>
          current \<noteq> end_node \<and> current \<noteq> start_node \<and>
          raised (dijkstra_step start_node end_node s) = None)"

definition astar_counts :: "ref \<Rightarrow> ref \<Rightarrow> astar_state \<Rightarrow> bool" where
  "astar_counts start_node end_node s =
     (case heappop (open_set s) of
        None \<Rightarrow> False
      | Some ((current_f_score, tie_breaker, current), rest) \<Rightarrow>
          current \<in> open_set_hash s \<and>
          (case f_score s current of None \<Rightarrow> False | Some f \<Rightarrow> \<not> current_f_score > f) \<and>
          current \<noteq> end_node \<and> current \<noteq> start_node \<and>
          raised (astar_step start_node end_node s) = None)"

text \<open>The sequence numbers and the cells of the entries of a heap.\<close>

definition seq_numbers :: "entry list \<Rightarrow> nat list" where
  "seq_numbers hp = map (\<lambda>e. fst (snd e)) hp"

definition pending :: "entry list \<Rightarrow> ref list" where
  "pending hp = map (\<lambda>e. snd (snd e)) hp"

text \<open>No sequence number in the heap exceeds the counter, no two entries share one, and
  (unless an exception has ended the run) \<open>open_set_hash\<close> is exactly the set of the cells
  that have an entry in the heap, each of them one entry.\<close>

definition heap_inv :: "'a pq_state_scheme \<Rightarrow> bool" where
  "heap_inv s =
     ((\<forall>c \<in> set (seq_numbers (open_set s)). c \<le> count s) \<and>
      distinct (seq_numbers (open_set s)) \<and>
      (raised s = None \<longrightarrow>
         distinct (pending (open_set s)) \<and> open_set_hash s = set (pending (open_set s))))"

text \<open>Sample states of the two priority-queue searches: the initial states on the open
  grid of two rows, and states whose only heap entry carries a key worse than the score
  of its cell.\<close>

definition demo_pq :: pq_state where
  "demo_pq = dijkstra_init (grid_refs 2) (0, 0) (grid_store 2 [] (0, 0) (0, 1))"

definition demo_astar :: astar_state where
  "demo_astar = astar_init (grid_refs 2) (0, 0) (0, 1) (grid_store 2 [] (0, 0) (0, 1))"

definition stale_pq :: pq_state where
  "stale_pq = demo_pq\<lparr>g_score := (g_score demo_pq)((1, 0) \<mapsto> 3),
                        open_set := [(5, 1, (1, 0))], open_set_hash := {(1, 0)}\<rparr>"

definition stale_astar :: astar_state where
  "stale_astar = demo_astar\<lparr>open_set := [(5, 1, (1, 0))], open_set_hash := {(1, 0)},
                              f_score := (f_score demo_astar)((1, 0) \<mapsto> 3)\<rparr>"

text \<open>Cells waiting in the queue or on the stack are pairwise different and discovered;
  a cell that has been dequeued is discovered and no longer waiting.\<close>

definition waiting_inv :: "ref list \<Rightarrow> ref set \<Rightarrow> bool" where
  "waiting_inv fr vis = (distinct fr \<and> set fr \<subseteq> vis)"

definition done_with :: "ref \<Rightarrow> ref list \<Rightarrow> ref set \<Rightarrow> bool" where
  "done_with x fr vis = (x \<in> vis \<and> x \<notin> set fr)"

text \<open>The cell of the entry that the next iteration of a priority-queue search pops.\<close>

definition pq_current :: "'a pq_state_scheme \<Rightarrow> ref option" where
  "pq_current s = map_option (\<lambda>p. snd (snd (fst p))) (heappop (open_set s))"

text \<open>A store whose neighbour lists are not those of a grid: from the start cell
  \<open>(0, 0)\<close> the cell \<open>(0, 1)\<close> is reached over \<open>(1, 2)\<close> and \<open>(1, 1)\<close>, which lie near the
  end cell \<open>(0, 2)\<close>, and more directly over the far cell \<open>(5, 0)\<close>; nothing leads to the
  end cell.\<close>

definition detour_store :: store where
  "detour_store =
     (\<lambda>r. (Node_init (fst r) (snd r) 100 6)
            \<lparr>color := (if r = (0, 0) then ORANGE else if r = (0, 2) then TURQUOISE else WHITE),
             neighbors := (if r = (0, 0) then [(1, 2), (5, 0)]
                           else if r = (1, 2) then [(1, 1)]
                           else if r = (1, 1) then [(0, 1)]
                           else if r = (5, 0) then [(0, 1)] else [])\<rparr>)"

text \<open>The cell that the iteration beginning in state \<open>s\<close> counts, if it counts one: the
  dequeued cell, when the iteration expands it and it is neither start nor end.\<close>

definition bfs_counted :: "ref \<Rightarrow> ref \<Rightarrow> bfs_state \<Rightarrow> ref option" where
  "bfs_counted start_node end_node s =
     (if bfs_counts start_node end_node s then Some (hd (queue s)) else None)"

definition dfs_counted :: "ref \<Rightarrow> ref \<Rightarrow> dfs_state \<Rightarrow> ref option" where
  "dfs_counted start_node end_node s =
     (if dfs_counts start_node end_node s then Some (last (stack s)) else None)"

definition dijkstra_counted :: "ref \<Rightarrow> ref \<Rightarrow> pq_state \<Rightarrow> ref option" where
  "dijkstra_counted start_node end_node s =
     (if dijkstra_counts start_node end_node s then pq_current s else None)"

definition astar_counted :: "ref \<Rightarrow> ref \<Rightarrow> astar_state \<Rightarrow> ref option" where
  "astar_counted start_node end_node s =
     (if astar_counts start_node end_node s then pq_current s else None)"

text \<open>The cells counted by the first \<open>k\<close> iterations, in the order in which they are
  counted.\<close>

definition counted_cells :: "('s \<Rightarrow> ref option) \<Rightarrow> ('s \<Rightarrow> 's) \<Rightarrow> 's \<Rightarrow> nat \<Rightarrow> ref list" where
  "counted_cells f c s k = List.map_filter (\<lambda>i. f ((c ^^ i) s)) [0..<k]"

text \<open>Every entry of the heap carries a key that is not below the current score of its
  cell.\<close>

definition keys_ok :: "(ref \<rightharpoonup> enat) \<Rightarrow> entry list \<Rightarrow> bool" where
  "keys_ok sc hp = (\<forall>e \<in> set hp. \<exists>v. sc (snd (snd e)) = Some v \<and> v \<le> fst e)"

text \<open>The cell \<open>c\<close> has been expanded and is out of the heap, and no key in the heap is
  below its score plus its heuristic value \<open>hh c\<close> (zero for Dijkstra).\<close>

definition closed_cell :: "(ref \<Rightarrow> nat) \<Rightarrow> ref \<Rightarrow> 'a pq_state_scheme \<Rightarrow> bool" where
  "closed_cell hh c s =
     (c \<notin> set (pending (open_set s)) \<and>
      (\<exists>gc. g_score s c = Some gc \<and> (\<forall>e \<in> set (open_set s). gc + enat (hh c) \<le> fst e)))"

text \<open>The same while the neighbours of the cell \<open>u\<close>, whose score is \<open>gu\<close>, are relaxed.\<close>

definition relax_inv :: "(ref \<Rightarrow> nat) \<Rightarrow> ref \<Rightarrow> ref \<Rightarrow> enat \<Rightarrow> 'a pq_state_scheme \<Rightarrow> bool" where
  "relax_inv hh c u gu s =
     (g_score s u = Some gu \<and> c \<notin> set (pending (open_set s)) \<and>
      (\<exists>gc. g_score s c = Some gc \<and> gc + enat (hh c) \<le> gu + enat (hh u) \<and>
            (\<forall>e \<in> set (open_set s). gc + enat (hh c) \<le> fst e)))"

definition dijkstra_W :: "pq_state \<Rightarrow> bool" where
  "dijkstra_W s = (heap_inv s \<and> keys_ok (g_score s) (open_set s))"

text \<open>The heuristic value of a cell, read from the store the run starts with.\<close>

definition hval :: "store \<Rightarrow> ref \<Rightarrow> ref \<Rightarrow> nat" where
  "hval st end_node n = nat (h (get_pos (st n)) (get_pos (st end_node)))"

text \<open>The neighbour lists of the cells in \<open>R\<close> stay in \<open>R\<close>, and the heuristic value drops
  by at most one along them.\<close>

definition consistent_on :: "ref set \<Rightarrow> store \<Rightarrow> ref \<Rightarrow> bool" where
  "consistent_on R st end_node =
     (\<forall>u \<in> R. \<forall>n \<in> set (neighbors (st u)). n \<in> R \<and> hval st end_node u \<le> hval st end_node n + 1)"

text \<open>A run changes nothing but the tags of the cells.\<close>

definition same_cells :: "store \<Rightarrow> store \<Rightarrow> bool" where
  "same_cells st st' = (\<forall>r. get_pos (st' r) = get_pos (st r) \<and> neighbors (st' r) = neighbors (st r))"

text \<open>The cells in the heap lie in \<open>R\<close>; the key of an entry is not below the f score of its
  cell (the first entry of the start cell, pushed with key 0, apart); and the f score of a
  cell is its g score plus its heuristic value.\<close>

definition astar_J :: "store \<Rightarrow> ref \<Rightarrow> ref \<Rightarrow> ref set \<Rightarrow> astar_state \<Rightarrow> bool" where
  "astar_J st a b R s =
     (same_cells st (nodes s) \<and> set (pending (open_set s)) \<subseteq> R \<and>
      (\<forall>e \<in> set (open_set s). snd (snd e) \<noteq> a \<longrightarrow>
          (\<exists>v. f_score s (snd (snd e)) = Some v \<and> v \<le> fst e)) \<and>
      (\<forall>n v. f_score s n = Some v \<longrightarrow>
          (\<exists>g. g_score s n = Some g \<and> v = g + enat (hval st b n))))"

definition astar_W :: "store \<Rightarrow> ref \<Rightarrow> ref \<Rightarrow> ref set \<Rightarrow> astar_state \<Rightarrow> bool" where
  "astar_W st a b R s = (heap_inv s \<and> astar_J st a b R s)"


lemma set_range_py: "set (range_py n) = {j. 0 \<le> j \<and> j < n}"
proof (rule set_eqI)
  fix j :: int
  have "j \<in> int ` {0..<nat n} \<longleftrightarrow> 0 \<le> j \<and> j < n"
  proof
    assume "j \<in> int ` {0..<nat n}"
    then show "0 \<le> j \<and> j < n" by auto
  next
    assume a: "0 \<le> j \<and> j < n"
    then have "nat j \<in> {0..<nat n}" by simp
    moreover have "j = int (nat j)" using a by simp
    ultimately show "j \<in> int ` {0..<nat n}" by (rule_tac x = "nat j" in image_eqI)
  qed
  then show "j \<in> set (range_py n) \<longleftrightarrow> j \<in> {j. 0 \<le> j \<and> j < n}"
    by (simp add: range_py_def)
qed





lemma grid_refs_2: "grid_refs 2 = [[(0,0),(0,1)],[(1,0),(1,1)]]"
  by (simp add: grid_refs_def range_py_def upt_rec)



lemma clear_node_foldl:
  "foldl clear_node st xs =
     (\<lambda>r. if r \<in> set xs \<and> \<not> tagged (st r) then reset (st r) else st r)"
proof (induction xs arbitrary: st)
  case Nil
  show ?case by simp
next
  case (Cons x xs)
  have "foldl clear_node st (x # xs) = foldl clear_node (clear_node st x) xs" by simp
  also have "\<dots> = (\<lambda>r. if r \<in> set xs \<and> \<not> tagged (clear_node st x r)
                        then reset (clear_node st x r) else clear_node st x r)"
    by (rule Cons.IH)
  also have "\<dots> = (\<lambda>r. if r \<in> set (x # xs) \<and> \<not> tagged (st r) then reset (st r) else st r)"
    by (auto simp: fun_eq_iff clear_node_def upd_def tagged_def reset_def
        is_start_def is_end_def is_barrier_def)
  finally show ?case .
qed

lemma make_start_idem: "is_start n \<Longrightarrow> make_start n = n"
  by (simp add: is_start_def make_start_def)

lemma make_end_idem: "is_end n \<Longrightarrow> make_end n = n"
  by (simp add: is_end_def make_end_def)

lemma clear_node_color:
  "(if r \<in> set xs \<and> \<not> tagged (st r) then reset (st r) else st r) =
   (if r \<in> set xs \<and> color (st r) \<noteq> ORANGE \<and> color (st r) \<noteq> TURQUOISE \<and> color (st r) \<noteq> BLACK
    then (st r)\<lparr>color := WHITE\<rparr> else st r)"
  by (simp add: tagged_def is_start_def is_end_def is_barrier_def reset_def)

text \<open>
  Claim C6 (as amended).  For every store, grid and given start and end cells,
  \<open>clear_path_nodes\<close> does exactly this: a cell other than the given start and end cells is
  given the tag Empty (WHITE, nothing else of it changes) when it is a cell of the grid whose
  tag is not Start, End or Barrier, and is left as it is otherwise; the given end cell is
  tagged End and the given start cell is tagged Start, whatever their tags were.  In
  particular a Barrier cell other than the given start and end cells stays a Barrier.
\<close>

theorem clear_path_nodes_effect:
  fixes G :: Grid and st :: store and s e :: ref
  defines "st' \<equiv> clear_path_nodes G (Some s) (Some e) st"
  shows "(\<forall>r. r \<noteq> s \<and> r \<noteq> e \<longrightarrow>
            st' r = (if r \<in> set (concat (grid_nodes G)) \<and> color (st r) \<noteq> ORANGE \<and>
                        color (st r) \<noteq> TURQUOISE \<and> color (st r) \<noteq> BLACK
                     then (st r)\<lparr>color := WHITE\<rparr> else st r)) \<and>
         st' e = (st e)\<lparr>color := TURQUOISE\<rparr> \<and>
         (s \<noteq> e \<longrightarrow> st' s = (st s)\<lparr>color := ORANGE\<rparr>) \<and>
         (\<forall>r. r \<noteq> s \<and> r \<noteq> e \<and> color (st r) = BLACK \<longrightarrow> color (st' r) = BLACK)"
proof -
  let ?C = "set (concat (grid_nodes G))"
  let ?st1 = "\<lambda>r. if r \<in> ?C \<and> color (st r) \<noteq> ORANGE \<and> color (st r) \<noteq> TURQUOISE \<and>
                        color (st r) \<noteq> BLACK
                 then (st r)\<lparr>color := WHITE\<rparr> else st r"
  have "foldl clear_node st (concat (grid_nodes G)) = ?st1"
    unfolding clear_node_foldl clear_node_color ..
  then have st': "st' = upd e make_end (upd s make_start ?st1)"
    by (simp add: st'_def clear_path_nodes_def)
  have a: "\<forall>r. r \<noteq> s \<and> r \<noteq> e \<longrightarrow> st' r = ?st1 r"
    by (simp add: st' upd_def)
  have b: "st' e = (st e)\<lparr>color := TURQUOISE\<rparr>"
    by (simp add: st' upd_def make_end_def make_start_def)
  have c: "s \<noteq> e \<longrightarrow> st' s = (st s)\<lparr>color := ORANGE\<rparr>"
    by (simp add: st' upd_def make_start_def)
  have d: "\<forall>r. r \<noteq> s \<and> r \<noteq> e \<and> color (st r) = BLACK \<longrightarrow> color (st' r) = BLACK"
    using a by simp
  show ?thesis using a b c d by blast
qed

theorem clear_path_nodes_effect_witness:
  "clear_path_nodes \<lparr>rows = 2, width = 600, gap = 300, grid_nodes = grid_refs 2\<rparr>
      (Some (0, 0)) (Some (1, 1)) demo_store (1, 0) = (demo_store (1, 0))\<lparr>color := WHITE\<rparr> \<and>
   color (demo_store (1, 0)) = RED \<and>
   clear_path_nodes \<lparr>rows = 2, width = 600, gap = 300, grid_nodes = grid_refs 2\<rparr>
      (Some (0, 0)) (Some (1, 1)) demo_store (0, 1) = demo_store (0, 1) \<and>
   color (demo_store (0, 1)) = BLACK \<and>
   clear_path_nodes \<lparr>rows = 2, width = 600, gap = 300, grid_nodes = grid_refs 2\<rparr>
      (Some (0, 0)) (Some (1, 1)) demo_store (0, 0) = (demo_store (0, 0))\<lparr>color := ORANGE\<rparr>"
  using clear_path_nodes_effect
    [where G = "\<lparr>rows = 2, width = 600, gap = 300, grid_nodes = grid_refs 2\<rparr>"
       and s = "(0, 0)" and e = "(1, 1)" and st = demo_store]
  by (simp add: grid_refs_2 demo_store_def)

text \<open>
  Claim C6 as stated fails: a cell tagged Barrier that is passed as the start cell is
  tagged Start afterwards.
\<close>

theorem clear_path_nodes_barrier_start:
  "color (demo_store (0, 1)) = BLACK \<and>
   color (clear_path_nodes \<lparr>rows = 2, width = 600, gap = 300, grid_nodes = grid_refs 2\<rparr>
      (Some (0, 1)) (Some (1, 1)) demo_store (0, 1)) = ORANGE"
  by (simp add: clear_path_nodes_def Let_def upd_def make_start_def make_end_def demo_store_def)

lemma set_concat_grid_refs: "set (concat (grid_refs n)) = {r. in_bounds n r}"
  by (auto simp: grid_refs_def set_range_py in_bounds_def)

lemma py_get_map_range:
  "0 \<le> i \<Longrightarrow> i < n \<Longrightarrow> py_get (map f (range_py n)) i = Inr (f i)"
  by (simp add: py_get_def range_py_def)

lemma grid_get_grid_refs:
  "0 \<le> i \<Longrightarrow> i < n \<Longrightarrow> 0 \<le> j \<Longrightarrow> j < n \<Longrightarrow> grid_get (grid_refs n) i j = Inr (i, j)"
  by (simp add: grid_get_def grid_refs_def py_get_map_range)

lemma check_neighbor_grid_refs:
  assumes "inb \<Longrightarrow> 0 \<le> i \<and> i < n \<and> 0 \<le> j \<and> j < n"
  shows "check_neighbor inb i j self (grid_refs n) st =
           Inr (if inb \<and> \<not> is_barrier (st (i, j))
                then upd self (\<lambda>nd. nd\<lparr>neighbors := neighbors nd @ [(i, j)]\<rparr>) st else st)"
  using assms by (simp add: check_neighbor_def grid_get_grid_refs)

lemma update_neighbors_grid_refs:
  assumes ib: "in_bounds n self"
    and f: "row (st self) = fst self" "col (st self) = snd self" "total_rows (st self) = n"
  shows "update_neighbors self (grid_refs n) st = Inr (st(self := set_neighbors n st self))"
proof -
  obtain a b where self: "self = (a, b)" by (cases self)
  have ab: "0 \<le> a" "a < n" "0 \<le> b" "b < n" using ib by (simp_all add: in_bounds_def self)
  let ?st0 = "upd self (\<lambda>nd. nd\<lparr>neighbors := []\<rparr>) st"
  have r: "row (?st0 self) = a" "col (?st0 self) = b" "total_rows (?st0 self) = n"
    using f by (simp_all add: upd_def self)
  have bar: "is_barrier (upd self g s q) = is_barrier (s q)"
    if "color (g (s self)) = color (s self)" for g s q
    using that by (simp add: upd_def is_barrier_def)
  define d1 where "d1 = (a < n - 1 \<and> \<not> is_barrier (st (a + 1, b)))"
  define d2 where "d2 = (a > 0 \<and> \<not> is_barrier (st (a - 1, b)))"
  define d3 where "d3 = (b < n - 1 \<and> \<not> is_barrier (st (a, b + 1)))"
  define d4 where "d4 = (b > 0 \<and> \<not> is_barrier (st (a, b - 1)))"
  define l1 where "l1 = (if d1 then [(a + 1, b)] else [])"
  define l2 where "l2 = l1 @ (if d2 then [(a - 1, b)] else [])"
  define l3 where "l3 = l2 @ (if d3 then [(a, b + 1)] else [])"
  define l4 where "l4 = l3 @ (if d4 then [(a, b - 1)] else [])"
  define S where "S = (\<lambda>l. st(self := (st self)\<lparr>neighbors := l\<rparr>))"
  have Sbar: "is_barrier (S l q) = is_barrier (st q)" for l q
    by (simp add: S_def is_barrier_def)
  have S0: "?st0 = S []" by (simp add: S_def upd_def)
  have app: "upd self (\<lambda>nd. nd\<lparr>neighbors := neighbors nd @ [q]\<rparr>) (S l) = S (l @ [q])" for l q
    by (simp add: S_def upd_def)
  have c1: "check_neighbor (a < n - 1) (a + 1) b self (grid_refs n) (S []) = Inr (S l1)"
    using ab by (subst check_neighbor_grid_refs [where n = n]) (auto simp: Sbar app l1_def d1_def)
  have c2: "check_neighbor (a > 0) (a - 1) b self (grid_refs n) (S l1) = Inr (S l2)"
    using ab by (subst check_neighbor_grid_refs [where n = n]) (auto simp: Sbar app l2_def d2_def)
  have c3: "check_neighbor (b < n - 1) a (b + 1) self (grid_refs n) (S l2) = Inr (S l3)"
    using ab by (subst check_neighbor_grid_refs [where n = n]) (auto simp: Sbar app l3_def d3_def)
  have c4: "check_neighbor (b > 0) a (b - 1) self (grid_refs n) (S l3) = Inr (S l4)"
    using ab by (subst check_neighbor_grid_refs [where n = n]) (auto simp: Sbar app l4_def d4_def)
  have "update_neighbors self (grid_refs n) st = Inr (S l4)"
    unfolding update_neighbors_def Let_def S0 using r
    by (simp add: S0 err_bind_def c1 c2 c3 c4)
  moreover have "l4 = open_neighbors n st self"
    using ab by (auto simp: l4_def l3_def l2_def l1_def d1_def d2_def d3_def d4_def
        open_neighbors_def candidates_def in_bounds_def self)
  ultimately show ?thesis by (simp add: S_def set_neighbors_def)
qed

lemma open_neighbors_cong:
  "(\<And>q. color (st' q) = color (st q)) \<Longrightarrow> open_neighbors n st' r = open_neighbors n st r"
  by (simp add: open_neighbors_def is_barrier_def)

lemma update_all_foldl:
  assumes "set xs \<subseteq> {r. in_bounds n r}"
    and "\<And>r. in_bounds n r \<Longrightarrow> row (st r) = fst r \<and> col (st r) = snd r \<and> total_rows (st r) = n"
  shows "foldl (\<lambda>acc node. err_bind acc (update_neighbors node (grid_refs n))) (Inr st) xs =
           Inr (\<lambda>r. if r \<in> set xs then set_neighbors n st r else st r)"
  using assms
proof (induction xs arbitrary: st)
  case Nil
  show ?case by simp
next
  case (Cons x xs)
  let ?F = "\<lambda>acc node. err_bind acc (update_neighbors node (grid_refs n))"
  define st1 where "st1 = st(x := set_neighbors n st x)"
  have x: "in_bounds n x" using Cons.prems(1) by simp
  have st1: "st1 r = (if r = x then set_neighbors n st x else st r)" for r
    by (simp add: st1_def)
  have col: "color (st1 q) = color (st q)" for q by (simp add: st1 set_neighbors_def)
  have on: "open_neighbors n st1 r = open_neighbors n st r" for r
    by (rule open_neighbors_cong) (rule col)
  have sn: "set_neighbors n st1 r = set_neighbors n st r" for r
    by (simp add: set_neighbors_def on st1)
  have "foldl ?F (Inr st) (x # xs) = foldl ?F (Inr st1) xs"
    using x Cons.prems(2) [OF x] by (simp add: err_bind_def update_neighbors_grid_refs st1_def)
  also have "\<dots> = Inr (\<lambda>r. if r \<in> set xs then set_neighbors n st1 r else st1 r)"
  proof (rule Cons.IH)
    show "set xs \<subseteq> {r. in_bounds n r}" using Cons.prems(1) by simp
    show "row (st1 r) = fst r \<and> col (st1 r) = snd r \<and> total_rows (st1 r) = n"
      if "in_bounds n r" for r
      using Cons.prems(2) [OF that] Cons.prems(2) [OF x] by (auto simp: st1 set_neighbors_def)
  qed
  also have "(\<lambda>r. if r \<in> set xs then set_neighbors n st1 r else st1 r) =
             (\<lambda>r. if r \<in> set (x # xs) then set_neighbors n st r else st r)"
    by (rule ext) (simp add: sn st1)
  finally show ?case .
qed

text \<open>
  Claim C5.  On a well-formed grid the neighbour refresh succeeds and gives every cell of the
  grid the ordered list down, up, right, left restricted to the places that are in bounds and
  whose cell is not tagged Barrier in the store at the time of the refresh; the list has at
  most four elements, and nothing else changes.
\<close>

theorem update_all_neighbors_result:
  assumes "well_formed G st"
  shows "update_all_neighbors G st =
           Inr (\<lambda>r. if in_bounds (rows G) r then set_neighbors (rows G) st r else st r) \<and>
         (\<forall>r. set_neighbors (rows G) st r = (st r)\<lparr>neighbors :=
                 filter (\<lambda>q. in_bounds (rows G) q \<and> \<not> is_barrier (st q))
                   [(fst r + 1, snd r), (fst r - 1, snd r), (fst r, snd r + 1), (fst r, snd r - 1)]\<rparr>
              \<and> length (neighbors (set_neighbors (rows G) st r)) \<le> 4)"
proof (intro conjI allI)
  have g: "grid_nodes G = grid_refs (rows G)" using assms by (simp add: well_formed_def)
  have f: "row (st r) = fst r \<and> col (st r) = snd r \<and> total_rows (st r) = rows G"
    if "in_bounds (rows G) r" for r
    using assms that by (cases r) (auto simp: well_formed_def)
  have "update_all_neighbors G st =
          Inr (\<lambda>r. if r \<in> set (concat (grid_refs (rows G))) then set_neighbors (rows G) st r else st r)"
    unfolding update_all_neighbors_def g
  proof (rule update_all_foldl)
    show "set (concat (grid_refs (rows G))) \<subseteq> {r. in_bounds (rows G) r}"
      unfolding set_concat_grid_refs ..
  qed (rule f)
  then show "update_all_neighbors G st =
           Inr (\<lambda>r. if in_bounds (rows G) r then set_neighbors (rows G) st r else st r)"
    unfolding set_concat_grid_refs by simp
next
  fix r
  show "set_neighbors (rows G) st r = (st r)\<lparr>neighbors :=
                 filter (\<lambda>q. in_bounds (rows G) q \<and> \<not> is_barrier (st q))
                   [(fst r + 1, snd r), (fst r - 1, snd r), (fst r, snd r + 1), (fst r, snd r - 1)]\<rparr>"
    unfolding set_neighbors_def open_neighbors_def candidates_def ..
next
  fix r
  have "length (open_neighbors (rows G) st r) \<le> length (candidates r)"
    unfolding open_neighbors_def by (rule length_filter_le)
  also have "length (candidates r) = 4" by (simp add: candidates_def)
  finally show "length (neighbors (set_neighbors (rows G) st r)) \<le> 4"
    by (simp add: set_neighbors_def)
qed

lemma well_formed_demo:
  "well_formed \<lparr>rows = 2, width = 600, gap = 300, grid_nodes = grid_refs 2\<rparr> demo_store"
  by (simp add: well_formed_def demo_store_def Node_init_def)

theorem update_all_neighbors_result_witness:
  "well_formed \<lparr>rows = 2, width = 600, gap = 300, grid_nodes = grid_refs 2\<rparr> demo_store \<and>
   (\<exists>st'. update_all_neighbors \<lparr>rows = 2, width = 600, gap = 300, grid_nodes = grid_refs 2\<rparr>
           demo_store = Inr st' \<and>
         neighbors (st' (0, 0)) = [(1, 0)] \<and> neighbors (st' (1, 0)) = [(0, 0), (1, 1)] \<and>
         neighbors (st' (1, 1)) = [(1, 0)])"
proof -
  let ?G = "\<lparr>rows = 2, width = 600, gap = 300, grid_nodes = grid_refs 2\<rparr>"
  note r = update_all_neighbors_result [OF well_formed_demo, THEN conjunct1]
  have b: "is_barrier (demo_store q) = (q = (0, 1))" for q
    by (simp add: demo_store_def is_barrier_def)
  have "neighbors (set_neighbors 2 demo_store (0, 0)) = [(1, 0)]"
       "neighbors (set_neighbors 2 demo_store (1, 0)) = [(0, 0), (1, 1)]"
       "neighbors (set_neighbors 2 demo_store (1, 1)) = [(1, 0)]"
    by (simp_all add: set_neighbors_def open_neighbors_def candidates_def in_bounds_def b)
  then show ?thesis using r well_formed_demo by (simp add: in_bounds_def)
qed

section \<open>Runs on concrete grids\<close>

text \<open>
  Claim C1, evaluated where it fails.  On a fresh grid of two rows with start \<open>(0, 0)\<close> and
  end \<open>(0, 1)\<close>, two adjacent cells, every algorithm finds the path and reports the path
  length 1, although the path has two cells: \<open>reconstruct_path\<close> steps to the predecessor
  before it appends, so its list holds neither the start nor the end cell, and the length
  reported is the number of cells of the path minus one.
\<close>

theorem adjacent_cells_path_length:
  "run_scenario BFS 2 [] (0, 0) (0, 1) = Some (Inr (True, 1, 1)) \<and>
   run_scenario DFS 2 [] (0, 0) (0, 1) = Some (Inr (True, 2, 1)) \<and>
   run_scenario Dijkstra 2 [] (0, 0) (0, 1) = Some (Inr (True, 1, 1)) \<and>
   run_scenario AStar 2 [] (0, 0) (0, 1) = Some (Inr (True, 0, 1))"
  by code_simp

text \<open>
  Claim C2, evaluated where it fails.  On the grid of five rows with barriers at \<open>(0, 1)\<close>,
  \<open>(1, 1)\<close> and \<open>(1, 3)\<close>, start \<open>(1, 4)\<close> and end \<open>(0, 0)\<close>, BFS and Dijkstra report the
  path length 7 and A* reports 9: a cell whose score improves while it waits in the heap is
  not pushed again, and its old entry is skipped when it is popped.
\<close>

theorem astar_longer_path:
  "map_option snd (bfs [] (grid_refs 5) (1, 4) (0, 0) (grid_store 5 [(0, 1), (1, 1), (1, 3)] (1, 4) (0, 0)))
     = Some (True, 20, 7) \<and>
   map_option snd (dijkstra [] (grid_refs 5) (1, 4) (0, 0) (grid_store 5 [(0, 1), (1, 1), (1, 3)] (1, 4) (0, 0)))
     = Some (Inr (True, 20, 7)) \<and>
   map_option snd (astar [] (grid_refs 5) (1, 4) (0, 0) (grid_store 5 [(0, 1), (1, 1), (1, 3)] (1, 4) (0, 0)))
     = Some (Inr (True, 14, 9))"
  by code_simp

lemma runs_iff: "runs b c s k = (\<forall>i<k. b ((c ^^ i) s))"
proof (induction k arbitrary: s)
  case 0
  show ?case by simp
next
  case (Suc k)
  have "(\<forall>i<Suc k. b ((c ^^ i) s)) = (b s \<and> (\<forall>i<k. b ((c ^^ Suc i) s)))"
    by (metis funpow_0 less_Suc_eq_0_disj)
  then show ?case by (simp add: Suc.IH funpow_swap1)
qed

lemma run_state_0: "runs b c s 0"
  by simp

lemma run_state_Suc: "runs b c s (Suc k) = (b s \<and> runs b c (c s) k)"
  by simp

lemma run_state_inv:
  assumes "runs b c s k" and "P s" and "\<And>t. P t \<Longrightarrow> b t \<Longrightarrow> P (c t)"
  shows "P ((c ^^ k) s)"
  using assms(1)
proof (induction k)
  case 0
  show ?case using assms(2) by simp
next
  case (Suc k)
  then have "runs b c s k" "b ((c ^^ k) s)" by (simp_all add: runs_iff)
  then show ?case using Suc.IH assms(3) by simp
qed

lemma loop_iter_lemma:
  "runs b c s k \<Longrightarrow> \<not> b ((c ^^ k) s) \<Longrightarrow> loop b c s = Some ((c ^^ k) s)"
proof (induction k arbitrary: s)
  case 0
  then show ?case by (simp add: loop.simps)
next
  case (Suc k)
  then have "b s" "runs b c (c s) k" "\<not> b ((c ^^ k) (c s))"
    by (simp_all add: run_state_Suc funpow_swap1)
  then show ?case using Suc.IH [of "c s"] by (simp add: loop.simps funpow_swap1)
qed

lemma loop_Some:
  assumes "loop b c s = Some t"
  shows "\<exists>k. runs b c s k \<and> t = (c ^^ k) s \<and> \<not> b t"
  using assms
proof (induction b c s t rule: loop.raw_induct [rotated, consumes 1])
  case (1 lp b c s t)
  show ?case
  proof (cases "b s")
    case True
    with 1(2) have "lp b c (c s) = Some t" by simp
    from 1(1) [OF this] obtain k where "runs b c (c s) k" "t = (c ^^ k) (c s)" "\<not> b t"
      by blast
    with True have "runs b c s (Suc k) \<and> t = (c ^^ Suc k) s \<and> \<not> b t"
      by (simp add: run_state_Suc funpow_swap1)
    then show ?thesis by blast
  next
    case False
    with 1(2) have "t = s" by simp
    with False have "runs b c s 0 \<and> t = (c ^^ 0) s \<and> \<not> b t" by (simp add: run_state_0)
    then show ?thesis by blast
  qed
qed

lemma run_loop_Some:
  assumes "run_loop sigs b c s = Some out"
  shows "\<exists>k. runs b c s k \<and> state_of out = (c ^^ k) s \<and>
             (if cancelled out then b (state_of out) \<and> k < length sigs \<and> sigs ! k = Quit
              else \<not> b (state_of out))"
  using assms
proof (induction sigs arbitrary: s)
  case Nil
  then obtain t where t: "loop b c s = Some t" "out = Finished t" by auto
  from loop_Some [OF t(1)] t(2) show ?case by auto
next
  case (Cons x xs)
  show ?case
  proof (cases "b s")
    case False
    with Cons.prems have "out = Finished s" by simp
    with False have "runs b c s 0 \<and> state_of out = (c ^^ 0) s \<and> \<not> cancelled out \<and> \<not> b (state_of out)"
      by (simp add: run_state_0)
    then show ?thesis by metis
  next
    case True
    show ?thesis
    proof (cases x)
      case Go
      with True Cons.prems have "run_loop xs b c (c s) = Some out" by simp
      from Cons.IH [OF this] obtain k where k: "runs b c (c s) k" "state_of out = (c ^^ k) (c s)"
        "if cancelled out then b (state_of out) \<and> k < length xs \<and> xs ! k = Quit
              else \<not> b (state_of out)" by blast
      have "runs b c s (Suc k) \<and> state_of out = (c ^^ Suc k) s \<and>
             (if cancelled out then b (state_of out) \<and> Suc k < length (x # xs) \<and> (x # xs) ! Suc k = Quit
              else \<not> b (state_of out))"
        using k True by (auto simp: run_state_Suc funpow_swap1)
      then show ?thesis by blast
    next
      case Quit
      with True Cons.prems have "out = Cancelled s" by simp
      with True Quit have "runs b c s 0 \<and> state_of out = (c ^^ 0) s \<and>
             (if cancelled out then b (state_of out) \<and> 0 < length (x # xs) \<and> (x # xs) ! 0 = Quit
              else \<not> b (state_of out))"
        by (simp add: run_state_0)
      then show ?thesis by blast
    next
      case Hang
      with True Cons.prems show ?thesis by simp
    qed
  qed
qed

lemma foldl_inv:
  assumes "P s" and "\<And>t x. x \<in> set xs \<Longrightarrow> P t \<Longrightarrow> P (f t x)"
  shows "P (foldl f s xs)"
  using assms by (induction xs arbitrary: s) auto

lemma bfs_visit_disc_inv:
  "disc_inv st0 a b s \<Longrightarrow> disc_inv st0 a b (bfs_visit cur b s x)"
  by (auto simp: disc_inv_def keeps_def bfs_visit_def upd_def make_open_def)

lemma dfs_visit_disc_inv:
  "disc_inv st0 a b s \<Longrightarrow> disc_inv st0 a b (dfs_visit cur b s x)"
  by (auto simp: disc_inv_def keeps_def dfs_visit_def upd_def make_open_def)

lemma bfs_step_disc_inv:
  assumes "disc_inv st0 a b s"
  shows "disc_inv st0 a b (bfs_step a b s)"
proof -
  have 0: "disc_inv st0 a b (s\<lparr>queue := tl (queue s)\<rparr>)"
    using assms by (simp add: disc_inv_def)
  have 1: "disc_inv st0 a b (foldl (bfs_visit cur b) (s\<lparr>queue := tl (queue s)\<rparr>) xs)" for cur xs
    by (rule foldl_inv [where P = "disc_inv st0 a b", OF 0]) (rule bfs_visit_disc_inv)
  show ?thesis
    using 0 1 [of "hd (queue s)" "neighbors (nodes s (hd (queue s)))"]
    by (auto simp: bfs_step_def Let_def disc_inv_def keeps_def upd_def make_closed_def)
qed

lemma dfs_step_disc_inv:
  assumes "disc_inv st0 a b s"
  shows "disc_inv st0 a b (dfs_step a b s)"
proof -
  define s1 where "s1 = (if last (stack s) \<noteq> a \<and> last (stack s) \<noteq> b
                        then s\<lparr>stack := butlast (stack s), nodes := upd (last (stack s)) make_closed (nodes s),
                                visited_nodes_count := visited_nodes_count s + 1\<rparr>
                        else s\<lparr>stack := butlast (stack s)\<rparr>)"
  have 0: "disc_inv st0 a b s1"
    using assms by (auto simp: s1_def disc_inv_def keeps_def upd_def make_closed_def)
  have 1: "disc_inv st0 a b (foldl (dfs_visit cur b) s1 xs)" for cur xs
    by (rule foldl_inv [where P = "disc_inv st0 a b", OF 0]) (rule dfs_visit_disc_inv)
  have "dfs_step a b s = (if last (stack s) = b then s\<lparr>stack := butlast (stack s), reached := True\<rparr>
          else foldl (dfs_visit (last (stack s)) b) s1 (rev (neighbors (nodes s1 (last (stack s))))))"
    by (simp add: dfs_step_def Let_def s1_def)
  then show ?thesis using 1 assms by (auto simp: disc_inv_def)
qed

lemma dijkstra_relax_pq_inv:
  "pq_inv st0 a b s \<Longrightarrow> pq_inv st0 a b (dijkstra_relax cur b s x)"
  by (auto simp: pq_inv_def keeps_def dijkstra_relax_def upd_def make_open_def Let_def
      split: option.splits)

lemma astar_relax_pq_inv:
  "pq_inv st0 a b s \<Longrightarrow> pq_inv st0 a b (astar_relax cur b s x)"
  by (auto simp: pq_inv_def keeps_def astar_relax_def upd_def make_open_def Let_def
      split: option.splits)

lemma dijkstra_step_pq_inv:
  assumes "pq_inv st0 a b s"
  shows "pq_inv st0 a b (dijkstra_step a b s)"
proof -
  have 1: "pq_inv st0 a b (foldl (dijkstra_relax cur b) s' xs)" if "pq_inv st0 a b s'" for cur xs s'
    by (rule foldl_inv [where P = "pq_inv st0 a b", OF that]) (rule dijkstra_relax_pq_inv)
  have 2: "pq_inv st0 a b (s\<lparr>open_set := r, open_set_hash := hs\<rparr>)" for r hs
    using assms by (simp add: pq_inv_def)
  show ?thesis
    using assms 1 [OF 2]
    by (auto simp: dijkstra_step_def Let_def pq_inv_def keeps_def upd_def make_closed_def
        split: option.splits prod.splits)
qed

lemma astar_step_pq_inv:
  assumes "pq_inv st0 a b s"
  shows "pq_inv st0 a b (astar_step a b s)"
proof -
  have 1: "pq_inv st0 a b (foldl (astar_relax cur b) s' xs)" if "pq_inv st0 a b s'" for cur xs s'
    by (rule foldl_inv [where P = "pq_inv st0 a b", OF that]) (rule astar_relax_pq_inv)
  have 2: "pq_inv st0 a b (s\<lparr>open_set := r, open_set_hash := hs\<rparr>)" for r hs
    using assms by (simp add: pq_inv_def)
  show ?thesis
    using assms 1 [OF 2]
    by (auto simp: astar_step_def Let_def pq_inv_def keeps_def upd_def make_closed_def
        split: option.splits prod.splits)
qed

lemma keeps_tags: "keeps st0 a b st \<Longrightarrow> is_start (st0 a) \<Longrightarrow> is_end (st0 b) \<Longrightarrow>
   is_start (st a) \<and> is_end (st b)"
  by (simp add: keeps_def is_start_def is_end_def)

lemma finish_tags:
  assumes "finish a b out = Some (st', r)"
    and "is_start (nodes (state_of out) a)" "is_end (nodes (state_of out) b)"
  shows "is_start (st' a) \<and> is_end (st' b)"
proof -
  have ne: "a \<noteq> b" using assms(2,3) by (auto simp: is_start_def is_end_def)
  show ?thesis
  proof (cases out)
    case (Cancelled s)
    with assms show ?thesis by auto
  next
    case (Finished s)
    show ?thesis
    proof (cases "reached s")
      case False
      with Finished assms show ?thesis by auto
    next
      case True
      with Finished assms(1) obtain pn st'' where
        "st' = upd a make_start (upd b make_end st'')"
        by (auto split: option.splits)
      with ne show ?thesis
        by (simp add: upd_def is_start_def is_end_def make_start_def make_end_def)
    qed
  qed
qed

lemma pq_finish_tags:
  assumes "pq_finish a b out = Some (st', r)"
    and "is_start (nodes (state_of out) a)" "is_end (nodes (state_of out) b)"
  shows "is_start (st' a) \<and> is_end (st' b)"
proof (cases "\<exists>r'. finish a b out = Some (st', r')")
  case True
  then show ?thesis using finish_tags assms(2,3) by blast
next
  case False
  with assms(1) have "st' = nodes (state_of out)"
    by (cases out) (auto simp: pq_finish_def split: option.splits)
  with assms(2,3) show ?thesis by simp
qed

lemma bfs_init_inv: "disc_inv st a b (bfs_init a st)"
  by (simp add: disc_inv_def keeps_def bfs_init_def)

lemma dfs_init_inv: "disc_inv st a b (dfs_init a st)"
  by (simp add: disc_inv_def keeps_def dfs_init_def)

lemma dijkstra_init_inv: "pq_inv st a b (dijkstra_init grid a st)"
  by (simp add: pq_inv_def keeps_def dijkstra_init_def)

lemma astar_init_inv: "pq_inv st a b (astar_init grid a b st)"
  by (simp add: pq_inv_def keeps_def astar_init_def)

lemma bfs_run_inv:
  "runs bfs_running (bfs_step a b) (bfs_init a st) k \<Longrightarrow>
     disc_inv st a b ((bfs_step a b ^^ k) (bfs_init a st))"
  by (erule run_state_inv [where P = "disc_inv st a b"]) (simp_all add: bfs_init_inv bfs_step_disc_inv)

lemma dfs_run_inv:
  "runs dfs_running (dfs_step a b) (dfs_init a st) k \<Longrightarrow>
     disc_inv st a b ((dfs_step a b ^^ k) (dfs_init a st))"
  by (erule run_state_inv [where P = "disc_inv st a b"]) (simp_all add: dfs_init_inv dfs_step_disc_inv)

lemma dijkstra_run_inv:
  "runs pq_running (dijkstra_step a b) (dijkstra_init grid a st) k \<Longrightarrow>
     pq_inv st a b ((dijkstra_step a b ^^ k) (dijkstra_init grid a st))"
  by (erule run_state_inv [where P = "pq_inv st a b"])
     (simp_all add: dijkstra_init_inv dijkstra_step_pq_inv)

lemma astar_run_inv:
  "runs pq_running (astar_step a b) (astar_init grid a b st) k \<Longrightarrow>
     pq_inv st a b ((astar_step a b ^^ k) (astar_init grid a b st))"
  by (erule run_state_inv [where P = "pq_inv st a b"])
     (simp_all add: astar_init_inv astar_step_pq_inv)

lemma bfs_final_tags:
  assumes "bfs sigs grid a b st = Some (st', r)" "is_start (st a)" "is_end (st b)"
  shows "is_start (st' a) \<and> is_end (st' b)"
proof -
  from assms(1) obtain out where o: "run_loop sigs bfs_running (bfs_step a b) (bfs_init a st) = Some out"
    and f: "finish a b out = Some (st', r)"
    by (auto simp: bfs_def split: option.splits)
  from run_loop_Some [OF o] obtain k where
    "runs bfs_running (bfs_step a b) (bfs_init a st) k"
    "state_of out = (bfs_step a b ^^ k) (bfs_init a st)" by blast
  with bfs_run_inv [of a b st k] have "keeps st a b (nodes (state_of out))"
    by (simp add: disc_inv_def)
  from keeps_tags [OF this assms(2,3)] show ?thesis using finish_tags [OF f] by blast
qed

lemma dfs_final_tags:
  assumes "dfs sigs grid a b st = Some (st', r)" "is_start (st a)" "is_end (st b)"
  shows "is_start (st' a) \<and> is_end (st' b)"
proof -
  from assms(1) obtain out where o: "run_loop sigs dfs_running (dfs_step a b) (dfs_init a st) = Some out"
    and f: "finish a b out = Some (st', r)"
    by (auto simp: dfs_def split: option.splits)
  from run_loop_Some [OF o] obtain k where
    "runs dfs_running (dfs_step a b) (dfs_init a st) k"
    "state_of out = (dfs_step a b ^^ k) (dfs_init a st)" by blast
  with dfs_run_inv [of a b st k] have "keeps st a b (nodes (state_of out))"
    by (simp add: disc_inv_def)
  from keeps_tags [OF this assms(2,3)] show ?thesis using finish_tags [OF f] by blast
qed

lemma dijkstra_final_tags:
  assumes "dijkstra sigs grid a b st = Some (st', r)" "is_start (st a)" "is_end (st b)"
  shows "is_start (st' a) \<and> is_end (st' b)"
proof -
  from assms(1) obtain out where
    o: "run_loop sigs pq_running (dijkstra_step a b) (dijkstra_init grid a st) = Some out"
    and f: "pq_finish a b out = Some (st', r)"
    by (auto simp: dijkstra_def split: option.splits)
  from run_loop_Some [OF o] obtain k where
    "runs pq_running (dijkstra_step a b) (dijkstra_init grid a st) k"
    "state_of out = (dijkstra_step a b ^^ k) (dijkstra_init grid a st)" by blast
  with dijkstra_run_inv [of a b grid st k] have "keeps st a b (nodes (state_of out))"
    by (simp add: pq_inv_def)
  from keeps_tags [OF this assms(2,3)] show ?thesis using pq_finish_tags [OF f] by blast
qed

lemma astar_final_tags:
  assumes "astar sigs grid a b st = Some (st', r)" "is_start (st a)" "is_end (st b)"
  shows "is_start (st' a) \<and> is_end (st' b)"
proof -
  from assms(1) obtain out where
    o: "run_loop sigs pq_running (astar_step a b) (astar_init grid a b st) = Some out"
    and f: "pq_finish a b out = Some (st', r)"
    by (auto simp: astar_def split: option.splits)
  from run_loop_Some [OF o] obtain k where
    "runs pq_running (astar_step a b) (astar_init grid a b st) k"
    "state_of out = (astar_step a b ^^ k) (astar_init grid a b st)" by blast
  with astar_run_inv [of a b grid st k] have "keeps st a b (nodes (state_of out))"
    by (simp add: pq_inv_def)
  from keeps_tags [OF this assms(2,3)] show ?thesis using pq_finish_tags [OF f] by blast
qed

text \<open>
  Claim C10.  Let the start cell carry the Start tag and the end cell the End tag when a
  search begins.  Then in every state the loop of each of the four algorithms passes through
  (the state before any iteration \<open>k\<close> that the run performs, whatever the pause and quit
  signals), the start cell is still tagged Start and the end cell still tagged End, so
  neither ever takes the Frontier or the Visited tag; and in the store of every run that
  returns, found or not, cancelled or not, they carry the Start and End tags.
\<close>

theorem start_end_tags_kept:
  assumes "is_start (st a)" and "is_end (st b)"
  shows "(runs bfs_running (bfs_step a b) (bfs_init a st) k \<longrightarrow>
            is_start (nodes ((bfs_step a b ^^ k) (bfs_init a st)) a) \<and>
            is_end (nodes ((bfs_step a b ^^ k) (bfs_init a st)) b)) \<and>
         (runs dfs_running (dfs_step a b) (dfs_init a st) k \<longrightarrow>
            is_start (nodes ((dfs_step a b ^^ k) (dfs_init a st)) a) \<and>
            is_end (nodes ((dfs_step a b ^^ k) (dfs_init a st)) b)) \<and>
         (runs pq_running (dijkstra_step a b) (dijkstra_init grid a st) k \<longrightarrow>
            is_start (nodes ((dijkstra_step a b ^^ k) (dijkstra_init grid a st)) a) \<and>
            is_end (nodes ((dijkstra_step a b ^^ k) (dijkstra_init grid a st)) b)) \<and>
         (runs pq_running (astar_step a b) (astar_init grid a b st) k \<longrightarrow>
            is_start (nodes ((astar_step a b ^^ k) (astar_init grid a b st)) a) \<and>
            is_end (nodes ((astar_step a b ^^ k) (astar_init grid a b st)) b)) \<and>
         (bfs sigs grid a b st = Some (st', r) \<longrightarrow> is_start (st' a) \<and> is_end (st' b)) \<and>
         (dfs sigs grid a b st = Some (st', r) \<longrightarrow> is_start (st' a) \<and> is_end (st' b)) \<and>
         (dijkstra sigs grid a b st = Some (st', r') \<longrightarrow> is_start (st' a) \<and> is_end (st' b)) \<and>
         (astar sigs grid a b st = Some (st', r') \<longrightarrow> is_start (st' a) \<and> is_end (st' b))"
  using bfs_run_inv [of a b st k] dfs_run_inv [of a b st k]
    dijkstra_run_inv [of a b grid st k] astar_run_inv [of a b grid st k]
    bfs_final_tags [of sigs grid a b st st' r] dfs_final_tags [of sigs grid a b st st' r]
    dijkstra_final_tags [of sigs grid a b st st' r'] astar_final_tags [of sigs grid a b st st' r']
    keeps_tags [OF _ assms] assms
  by (simp add: disc_inv_def pq_inv_def)

lemma demo_bfs_returns:
  "\<exists>st' r. bfs [Go] (grid_refs 2) (0, 0) (0, 1) (grid_store 2 [] (0, 0) (0, 1)) = Some (st', r)"
proof -
  have "bfs [Go] (grid_refs 2) (0, 0) (0, 1) (grid_store 2 [] (0, 0) (0, 1)) \<noteq> None"
    by code_simp
  then show ?thesis by auto
qed

theorem start_end_tags_kept_witness:
  "is_start (grid_store 2 [] (0, 0) (0, 1) (0, 0)) \<and> is_end (grid_store 2 [] (0, 0) (0, 1) (0, 1)) \<and>
   runs bfs_running (bfs_step (0, 0) (0, 1)) (bfs_init (0, 0) (grid_store 2 [] (0, 0) (0, 1))) 2 \<and>
   is_start (nodes ((bfs_step (0, 0) (0, 1) ^^ 2) (bfs_init (0, 0) (grid_store 2 [] (0, 0) (0, 1)))) (0, 0)) \<and>
   (\<exists>st' r. bfs [Go] (grid_refs 2) (0, 0) (0, 1) (grid_store 2 [] (0, 0) (0, 1)) = Some (st', r) \<and>
       is_start (st' (0, 0)) \<and> is_end (st' (0, 1)))"
proof -
  let ?st = "grid_store 2 [] (0, 0) (0, 1)"
  have a: "is_start (?st (0, 0))" by code_simp
  have b: "is_end (?st (0, 1))" by code_simp
  have c: "runs bfs_running (bfs_step (0, 0) (0, 1)) (bfs_init (0, 0) ?st) 2" by code_simp
  obtain st' r where d: "bfs [Go] (grid_refs 2) (0, 0) (0, 1) ?st = Some (st', r)"
    using demo_bfs_returns by blast
  from start_end_tags_kept [OF a b, of 2 "grid_refs 2" "[Go]" st' r] a b c d show ?thesis
    by blast
qed

lemma count_iterates:
  assumes "\<And>t. f (c t) = f t + (if P t then 1 else 0)"
  shows "f ((c ^^ k) s) = f s + expansions P c s k"
  by (induction k) (simp_all add: expansions_def assms)

lemma count_mono:
  assumes "\<And>t. f (c t) = f t + (if P t then 1 else (0::nat))" and "k \<le> m"
  shows "f ((c ^^ k) s) \<le> f ((c ^^ m) s)"
proof -
  have "f ((c ^^ j) ((c ^^ k) s)) = f ((c ^^ k) s) + expansions P c ((c ^^ k) s) j" for j
    by (rule count_iterates) (rule assms(1))
  moreover have "(c ^^ (m - k)) ((c ^^ k) s) = (c ^^ m) s"
    using assms(2) by (metis funpow_add o_apply le_add_diff_inverse2)
  ultimately have "f ((c ^^ m) s) = f ((c ^^ k) s) + expansions P c ((c ^^ k) s) (m - k)"
    by metis
  then show ?thesis by simp
qed

lemma bfs_visit_count: "visited_nodes_count (bfs_visit cur b s x) = visited_nodes_count s"
  by (simp add: bfs_visit_def)

lemma dfs_visit_count: "visited_nodes_count (dfs_visit cur b s x) = visited_nodes_count s"
  by (simp add: dfs_visit_def)

lemma dijkstra_relax_count:
  "visited_nodes_count (dijkstra_relax cur b s x) = visited_nodes_count s"
  by (simp add: dijkstra_relax_def Let_def split: option.splits)

lemma astar_relax_count:
  "visited_nodes_count (astar_relax cur b s x) = visited_nodes_count s"
  by (simp add: astar_relax_def Let_def split: option.splits)

lemma foldl_count:
  assumes "\<And>t x. visited_nodes_count (f t x) = visited_nodes_count t"
  shows "visited_nodes_count (foldl f s xs) = visited_nodes_count s"
  by (induction xs arbitrary: s) (simp_all add: assms)

lemma bfs_step_count:
  "visited_nodes_count (bfs_step a b s) =
     visited_nodes_count s + (if bfs_counts a b s then 1 else 0)"
  by (simp add: bfs_step_def Let_def bfs_counts_def foldl_count [of "bfs_visit _ _", OF bfs_visit_count])

lemma dfs_step_count:
  "visited_nodes_count (dfs_step a b s) =
     visited_nodes_count s + (if dfs_counts a b s then 1 else 0)"
  by (simp add: dfs_step_def Let_def dfs_counts_def foldl_count [of "dfs_visit _ _", OF dfs_visit_count])

lemma dijkstra_step_count:
  "visited_nodes_count (dijkstra_step a b s) =
     visited_nodes_count s + (if dijkstra_counts a b s then 1 else 0)"
proof (cases "heappop (open_set s)")
  case None
  then show ?thesis by (simp add: dijkstra_step_def dijkstra_counts_def)
next
  case (Some p)
  obtain k tb cur rest where p: "p = ((k, tb, cur), rest)" by (cases p) auto
  note hp = Some [unfolded p]
  define s1 where "s1 = s\<lparr>open_set := rest, open_set_hash := open_set_hash s - {cur}\<rparr>"
  define s2 where "s2 = foldl (dijkstra_relax cur b) s1 (neighbors (nodes s1 cur))"
  have c2: "visited_nodes_count s2 = visited_nodes_count s"
    unfolding s2_def by (simp add: foldl_count [of "dijkstra_relax cur b", OF dijkstra_relax_count] s1_def)
  consider (nohash) "cur \<notin> open_set_hash s"
    | (nog) "cur \<in> open_set_hash s" "g_score s cur = None"
    | (stale) g where "cur \<in> open_set_hash s" "g_score s cur = Some g" "k > g"
    | (goal) g where "cur \<in> open_set_hash s" "g_score s cur = Some g" "\<not> k > g" "cur = b"
    | (exp) g where "cur \<in> open_set_hash s" "g_score s cur = Some g" "\<not> k > g" "cur \<noteq> b"
    by (cases "g_score s cur") auto
  then show ?thesis
  proof cases
    case nohash
    then show ?thesis by (simp add: dijkstra_step_def dijkstra_counts_def hp)
  next
    case nog
    then show ?thesis by (simp add: dijkstra_step_def dijkstra_counts_def hp)
  next
    case stale
    then show ?thesis by (simp add: dijkstra_step_def dijkstra_counts_def hp)
  next
    case goal
    then show ?thesis by (simp add: dijkstra_step_def dijkstra_counts_def hp)
  next
    case exp
    have st: "dijkstra_step a b s =
        (if raised s2 \<noteq> None then s2
         else if cur \<noteq> a \<and> cur \<noteq> b
         then s2\<lparr>nodes := upd cur make_closed (nodes s2),
                 visited_nodes_count := visited_nodes_count s2 + 1\<rparr>
         else s2)"
      using exp by (simp add: dijkstra_step_def hp Let_def s2_def s1_def)
    have "dijkstra_counts a b s = (cur \<noteq> a \<and> raised (dijkstra_step a b s) = None)"
      using exp by (simp add: dijkstra_counts_def hp)
    then show ?thesis unfolding st using c2 exp by auto
  qed
qed

lemma astar_step_count:
  "visited_nodes_count (astar_step a b s) =
     visited_nodes_count s + (if astar_counts a b s then 1 else 0)"
proof (cases "heappop (open_set s)")
  case None
  then show ?thesis by (simp add: astar_step_def astar_counts_def)
next
  case (Some p)
  obtain k tb cur rest where p: "p = ((k, tb, cur), rest)" by (cases p) auto
  note hp = Some [unfolded p]
  define s1 where "s1 = s\<lparr>open_set := rest, open_set_hash := open_set_hash s - {cur}\<rparr>"
  define s2 where "s2 = foldl (astar_relax cur b) s1 (neighbors (nodes s1 cur))"
  have c2: "visited_nodes_count s2 = visited_nodes_count s"
    unfolding s2_def by (simp add: foldl_count [of "astar_relax cur b", OF astar_relax_count] s1_def)
  consider (nohash) "cur \<notin> open_set_hash s"
    | (nog) "cur \<in> open_set_hash s" "f_score s cur = None"
    | (stale) g where "cur \<in> open_set_hash s" "f_score s cur = Some g" "k > g"
    | (goal) g where "cur \<in> open_set_hash s" "f_score s cur = Some g" "\<not> k > g" "cur = b"
    | (exp) g where "cur \<in> open_set_hash s" "f_score s cur = Some g" "\<not> k > g" "cur \<noteq> b"
    by (cases "f_score s cur") auto
  then show ?thesis
  proof cases
    case nohash
    then show ?thesis by (simp add: astar_step_def astar_counts_def hp)
  next
    case nog
    then show ?thesis by (simp add: astar_step_def astar_counts_def hp)
  next
    case stale
    then show ?thesis by (simp add: astar_step_def astar_counts_def hp)
  next
    case goal
    then show ?thesis by (simp add: astar_step_def astar_counts_def hp)
  next
    case exp
    have st: "astar_step a b s =
        (if raised s2 \<noteq> None then s2
         else if cur \<noteq> a \<and> cur \<noteq> b
         then s2\<lparr>nodes := upd cur make_closed (nodes s2),
                 visited_nodes_count := visited_nodes_count s2 + 1\<rparr>
         else s2)"
      using exp by (simp add: astar_step_def hp Let_def s2_def s1_def)
    have "astar_counts a b s = (cur \<noteq> a \<and> raised (astar_step a b s) = None)"
      using exp by (simp add: astar_counts_def hp)
    then show ?thesis unfolding st using c2 exp by auto
  qed
qed

lemma finish_count:
  "finish a b out = Some (st', (f, vc, pl)) \<Longrightarrow> vc = visited_nodes_count (state_of out)"
  by (cases out) (auto split: if_splits option.splits)

lemma pq_finish_count:
  "pq_finish a b out = Some (st', Inr (f, vc, pl)) \<Longrightarrow> vc = visited_nodes_count (state_of out)"
  by (cases out) (auto simp: pq_finish_def split: if_splits option.splits)

lemma run_loop_count:
  assumes "run_loop sigs b c s = Some out"
    and "\<And>t. visited_nodes_count (c t) = visited_nodes_count t + (if P t then 1 else 0)"
  shows "\<exists>k. runs b c s k \<and> (\<not> b ((c ^^ k) s) \<or> k < length sigs \<and> sigs ! k = Quit) \<and>
             visited_nodes_count (state_of out) = visited_nodes_count s + expansions P c s k"
proof -
  from run_loop_Some [OF assms(1)] obtain k where k: "runs b c s k" "state_of out = (c ^^ k) s"
    "if cancelled out then b (state_of out) \<and> k < length sigs \<and> sigs ! k = Quit
     else \<not> b (state_of out)" by blast
  have "visited_nodes_count ((c ^^ k) s) = visited_nodes_count s + expansions P c s k"
    by (rule count_iterates) (rule assms(2))
  with k show ?thesis by (cases "cancelled out") auto
qed

text \<open>
  Whenever an algorithm returns a result (found, exhausted or cancelled), the visited count
  it reports is the number of iterations, among the \<open>k\<close> iterations the loop performed,
  in which the dequeued cell was expanded and was neither the start nor the end cell.
\<close>

lemma visited_count_is_expansions:
  "(bfs sigs grid a b st = Some (st', (found, vc, pl)) \<longrightarrow>
      (\<exists>k. runs bfs_running (bfs_step a b) (bfs_init a st) k \<and>
           (\<not> bfs_running ((bfs_step a b ^^ k) (bfs_init a st)) \<or> k < length sigs \<and> sigs ! k = Quit) \<and>
           vc = expansions (bfs_counts a b) (bfs_step a b) (bfs_init a st) k)) \<and>
   (dfs sigs grid a b st = Some (st', (found, vc, pl)) \<longrightarrow>
      (\<exists>k. runs dfs_running (dfs_step a b) (dfs_init a st) k \<and>
           (\<not> dfs_running ((dfs_step a b ^^ k) (dfs_init a st)) \<or> k < length sigs \<and> sigs ! k = Quit) \<and>
           vc = expansions (dfs_counts a b) (dfs_step a b) (dfs_init a st) k)) \<and>
   (dijkstra sigs grid a b st = Some (st', Inr (found, vc, pl)) \<longrightarrow>
      (\<exists>k. runs pq_running (dijkstra_step a b) (dijkstra_init grid a st) k \<and>
           (\<not> pq_running ((dijkstra_step a b ^^ k) (dijkstra_init grid a st)) \<or>
              k < length sigs \<and> sigs ! k = Quit) \<and>
           vc = expansions (dijkstra_counts a b) (dijkstra_step a b) (dijkstra_init grid a st) k)) \<and>
   (astar sigs grid a b st = Some (st', Inr (found, vc, pl)) \<longrightarrow>
      (\<exists>k. runs pq_running (astar_step a b) (astar_init grid a b st) k \<and>
           (\<not> pq_running ((astar_step a b ^^ k) (astar_init grid a b st)) \<or>
              k < length sigs \<and> sigs ! k = Quit) \<and>
           vc = expansions (astar_counts a b) (astar_step a b) (astar_init grid a b st) k))"
proof (intro conjI impI)
  assume "bfs sigs grid a b st = Some (st', (found, vc, pl))"
  then obtain out where o: "run_loop sigs bfs_running (bfs_step a b) (bfs_init a st) = Some out"
    and f: "finish a b out = Some (st', (found, vc, pl))"
    by (auto simp: bfs_def split: option.splits)
  from run_loop_count [OF o bfs_step_count] finish_count [OF f]
  show "\<exists>k. runs bfs_running (bfs_step a b) (bfs_init a st) k \<and>
           (\<not> bfs_running ((bfs_step a b ^^ k) (bfs_init a st)) \<or> k < length sigs \<and> sigs ! k = Quit) \<and>
           vc = expansions (bfs_counts a b) (bfs_step a b) (bfs_init a st) k"
    by (simp add: bfs_init_def)
next
  assume "dfs sigs grid a b st = Some (st', (found, vc, pl))"
  then obtain out where o: "run_loop sigs dfs_running (dfs_step a b) (dfs_init a st) = Some out"
    and f: "finish a b out = Some (st', (found, vc, pl))"
    by (auto simp: dfs_def split: option.splits)
  from run_loop_count [OF o dfs_step_count] finish_count [OF f]
  show "\<exists>k. runs dfs_running (dfs_step a b) (dfs_init a st) k \<and>
           (\<not> dfs_running ((dfs_step a b ^^ k) (dfs_init a st)) \<or> k < length sigs \<and> sigs ! k = Quit) \<and>
           vc = expansions (dfs_counts a b) (dfs_step a b) (dfs_init a st) k"
    by (simp add: dfs_init_def)
next
  assume "dijkstra sigs grid a b st = Some (st', Inr (found, vc, pl))"
  then obtain out where
    o: "run_loop sigs pq_running (dijkstra_step a b) (dijkstra_init grid a st) = Some out"
    and f: "pq_finish a b out = Some (st', Inr (found, vc, pl))"
    by (auto simp: dijkstra_def split: option.splits)
  from run_loop_count [OF o dijkstra_step_count] pq_finish_count [OF f]
  show "\<exists>k. runs pq_running (dijkstra_step a b) (dijkstra_init grid a st) k \<and>
           (\<not> pq_running ((dijkstra_step a b ^^ k) (dijkstra_init grid a st)) \<or>
              k < length sigs \<and> sigs ! k = Quit) \<and>
           vc = expansions (dijkstra_counts a b) (dijkstra_step a b) (dijkstra_init grid a st) k"
    by (simp add: dijkstra_init_def)
next
  assume "astar sigs grid a b st = Some (st', Inr (found, vc, pl))"
  then obtain out where
    o: "run_loop sigs pq_running (astar_step a b) (astar_init grid a b st) = Some out"
    and f: "pq_finish a b out = Some (st', Inr (found, vc, pl))"
    by (auto simp: astar_def split: option.splits)
  from run_loop_count [OF o astar_step_count] pq_finish_count [OF f]
  show "\<exists>k. runs pq_running (astar_step a b) (astar_init grid a b st) k \<and>
           (\<not> pq_running ((astar_step a b ^^ k) (astar_init grid a b st)) \<or>
              k < length sigs \<and> sigs ! k = Quit) \<and>
           vc = expansions (astar_counts a b) (astar_step a b) (astar_init grid a b st) k"
    by (simp add: astar_init_def)
qed

lemma demo_bfs_result:
  "\<exists>st'. bfs [] (grid_refs 2) (0, 0) (0, 1) (grid_store 2 [] (0, 0) (0, 1)) = Some (st', (True, 1, 1))"
proof -
  have "map_option snd (bfs [] (grid_refs 2) (0, 0) (0, 1) (grid_store 2 [] (0, 0) (0, 1)))
          = Some (True, 1, 1)"
    by code_simp
  then show ?thesis by auto
qed

lemma run_loop_quit:
  "runs b c s (Suc k) \<Longrightarrow>
     run_loop (replicate k Go @ Quit # rest) b c s = Some (Cancelled ((c ^^ k) s))"
proof (induction k arbitrary: s)
  case 0
  then show ?case by simp
next
  case (Suc k)
  then have "b s" "runs b c (c s) (Suc k)" by simp_all
  with Suc.IH [of "c s"] show ?case by (simp add: funpow_swap1)
qed

lemma run_loop_le:
  assumes r1: "run_loop sigs b c s = Some out1"
    and r0: "run_loop [] b c s = Some out0"
    and step: "\<And>t. visited_nodes_count (c t) = visited_nodes_count t + (if P t then 1 else 0)"
  shows "visited_nodes_count (state_of out1) \<le> visited_nodes_count (state_of out0)"
proof -
  from run_loop_Some [OF r1] obtain k1 where k1: "runs b c s k1" "state_of out1 = (c ^^ k1) s"
    by blast
  from run_loop_Some [OF r0] obtain k0 where k0: "state_of out0 = (c ^^ k0) s"
    "\<not> b (state_of out0)"
    by (cases "cancelled out0") auto
  have "k1 \<le> k0"
  proof (rule ccontr)
    assume "\<not> k1 \<le> k0"
    then have "k0 < k1" by simp
    with k1(1) have "b ((c ^^ k0) s)" by (simp add: runs_iff)
    with k0 show False by simp
  qed
  with count_mono [of visited_nodes_count c P k1 k0 s, OF step] k1 k0 show ?thesis by simp
qed

text \<open>
  Claim C7.  When the quit signal is observed in iteration \<open>k\<close> of a run (the loop is still
  running then, and the iterations before it were not cancelled), the algorithm returns
  \<open>found = False\<close> and path length 0 together with the store and the visited count as they
  are at that moment.  And the visited count of any run that returns, whatever its pause
  and quit signals, is at most the visited count the uninterrupted run of the same
  configuration reports.
\<close>

theorem cancelled_run_result:
  "(runs bfs_running (bfs_step a b) (bfs_init a st) (Suc k) \<longrightarrow>
      bfs (replicate k Go @ Quit # rest) grid a b st =
        Some (nodes ((bfs_step a b ^^ k) (bfs_init a st)),
              (False, visited_nodes_count ((bfs_step a b ^^ k) (bfs_init a st)), 0))) \<and>
   (runs dfs_running (dfs_step a b) (dfs_init a st) (Suc k) \<longrightarrow>
      dfs (replicate k Go @ Quit # rest) grid a b st =
        Some (nodes ((dfs_step a b ^^ k) (dfs_init a st)),
              (False, visited_nodes_count ((dfs_step a b ^^ k) (dfs_init a st)), 0))) \<and>
   (runs pq_running (dijkstra_step a b) (dijkstra_init grid a st) (Suc k) \<longrightarrow>
      dijkstra (replicate k Go @ Quit # rest) grid a b st =
        Some (nodes ((dijkstra_step a b ^^ k) (dijkstra_init grid a st)),
              Inr (False, visited_nodes_count ((dijkstra_step a b ^^ k) (dijkstra_init grid a st)), 0))) \<and>
   (runs pq_running (astar_step a b) (astar_init grid a b st) (Suc k) \<longrightarrow>
      astar (replicate k Go @ Quit # rest) grid a b st =
        Some (nodes ((astar_step a b ^^ k) (astar_init grid a b st)),
              Inr (False, visited_nodes_count ((astar_step a b ^^ k) (astar_init grid a b st)), 0))) \<and>
   (bfs sigs grid a b st = Some (st1, (f1, v1, p1)) \<and>
    bfs [] grid a b st = Some (st0, (f0, v0, p0)) \<longrightarrow> v1 \<le> v0) \<and>
   (dfs sigs grid a b st = Some (st1, (f1, v1, p1)) \<and>
    dfs [] grid a b st = Some (st0, (f0, v0, p0)) \<longrightarrow> v1 \<le> v0) \<and>
   (dijkstra sigs grid a b st = Some (st1, Inr (f1, v1, p1)) \<and>
    dijkstra [] grid a b st = Some (st0, Inr (f0, v0, p0)) \<longrightarrow> v1 \<le> v0) \<and>
   (astar sigs grid a b st = Some (st1, Inr (f1, v1, p1)) \<and>
    astar [] grid a b st = Some (st0, Inr (f0, v0, p0)) \<longrightarrow> v1 \<le> v0)"
proof (intro conjI impI)
  assume "runs bfs_running (bfs_step a b) (bfs_init a st) (Suc k)"
  from run_loop_quit [OF this, of rest]
  show "bfs (replicate k Go @ Quit # rest) grid a b st =
        Some (nodes ((bfs_step a b ^^ k) (bfs_init a st)),
              (False, visited_nodes_count ((bfs_step a b ^^ k) (bfs_init a st)), 0))"
    by (simp add: bfs_def)
next
  assume "runs dfs_running (dfs_step a b) (dfs_init a st) (Suc k)"
  from run_loop_quit [OF this, of rest]
  show "dfs (replicate k Go @ Quit # rest) grid a b st =
        Some (nodes ((dfs_step a b ^^ k) (dfs_init a st)),
              (False, visited_nodes_count ((dfs_step a b ^^ k) (dfs_init a st)), 0))"
    by (simp add: dfs_def)
next
  assume "runs pq_running (dijkstra_step a b) (dijkstra_init grid a st) (Suc k)"
  from run_loop_quit [OF this, of rest]
  show "dijkstra (replicate k Go @ Quit # rest) grid a b st =
        Some (nodes ((dijkstra_step a b ^^ k) (dijkstra_init grid a st)),
              Inr (False, visited_nodes_count ((dijkstra_step a b ^^ k) (dijkstra_init grid a st)), 0))"
    by (simp add: dijkstra_def pq_finish_def)
next
  assume "runs pq_running (astar_step a b) (astar_init grid a b st) (Suc k)"
  from run_loop_quit [OF this, of rest]
  show "astar (replicate k Go @ Quit # rest) grid a b st =
        Some (nodes ((astar_step a b ^^ k) (astar_init grid a b st)),
              Inr (False, visited_nodes_count ((astar_step a b ^^ k) (astar_init grid a b st)), 0))"
    by (simp add: astar_def pq_finish_def)
next
  assume h: "bfs sigs grid a b st = Some (st1, (f1, v1, p1)) \<and>
    bfs [] grid a b st = Some (st0, (f0, v0, p0))"
  then obtain o1 o0 where
    "run_loop sigs bfs_running (bfs_step a b) (bfs_init a st) = Some o1"
    "finish a b o1 = Some (st1, (f1, v1, p1))"
    "run_loop [] bfs_running (bfs_step a b) (bfs_init a st) = Some o0"
    "finish a b o0 = Some (st0, (f0, v0, p0))"
    unfolding bfs_def by (auto split: option.splits)
  with run_loop_le [OF this(1) this(3) bfs_step_count] finish_count
  show "v1 \<le> v0" by metis
next
  assume h: "dfs sigs grid a b st = Some (st1, (f1, v1, p1)) \<and>
    dfs [] grid a b st = Some (st0, (f0, v0, p0))"
  then obtain o1 o0 where
    "run_loop sigs dfs_running (dfs_step a b) (dfs_init a st) = Some o1"
    "finish a b o1 = Some (st1, (f1, v1, p1))"
    "run_loop [] dfs_running (dfs_step a b) (dfs_init a st) = Some o0"
    "finish a b o0 = Some (st0, (f0, v0, p0))"
    unfolding dfs_def by (auto split: option.splits)
  with run_loop_le [OF this(1) this(3) dfs_step_count] finish_count
  show "v1 \<le> v0" by metis
next
  assume h: "dijkstra sigs grid a b st = Some (st1, Inr (f1, v1, p1)) \<and>
    dijkstra [] grid a b st = Some (st0, Inr (f0, v0, p0))"
  then obtain o1 o0 where
    "run_loop sigs pq_running (dijkstra_step a b) (dijkstra_init grid a st) = Some o1"
    "pq_finish a b o1 = Some (st1, Inr (f1, v1, p1))"
    "run_loop [] pq_running (dijkstra_step a b) (dijkstra_init grid a st) = Some o0"
    "pq_finish a b o0 = Some (st0, Inr (f0, v0, p0))"
    unfolding dijkstra_def by (auto split: option.splits)
  with run_loop_le [OF this(1) this(3) dijkstra_step_count] pq_finish_count
  show "v1 \<le> v0" by metis
next
  assume h: "astar sigs grid a b st = Some (st1, Inr (f1, v1, p1)) \<and>
    astar [] grid a b st = Some (st0, Inr (f0, v0, p0))"
  then obtain o1 o0 where
    "run_loop sigs pq_running (astar_step a b) (astar_init grid a b st) = Some o1"
    "pq_finish a b o1 = Some (st1, Inr (f1, v1, p1))"
    "run_loop [] pq_running (astar_step a b) (astar_init grid a b st) = Some o0"
    "pq_finish a b o0 = Some (st0, Inr (f0, v0, p0))"
    unfolding astar_def by (auto split: option.splits)
  with run_loop_le [OF this(1) this(3) astar_step_count] pq_finish_count
  show "v1 \<le> v0" by metis
qed

lemma demo_bfs_runs:
  "runs bfs_running (bfs_step (0, 0) (0, 1)) (bfs_init (0, 0) (grid_store 2 [] (0, 0) (0, 1))) (Suc 1)"
  by code_simp

lemma demo_bfs_cancelled:
  "\<exists>st1. bfs [Go, Quit] (grid_refs 2) (0, 0) (0, 1) (grid_store 2 [] (0, 0) (0, 1))
      = Some (st1, (False, 0, 0))"
proof -
  have "map_option snd (bfs [Go, Quit] (grid_refs 2) (0, 0) (0, 1) (grid_store 2 [] (0, 0) (0, 1)))
          = Some (False, 0, 0)"
    by code_simp
  then show ?thesis by auto
qed

theorem cancelled_run_result_witness:
  "runs bfs_running (bfs_step (0, 0) (0, 1)) (bfs_init (0, 0) (grid_store 2 [] (0, 0) (0, 1))) (Suc 1) \<and>
   bfs (replicate 1 Go @ Quit # []) (grid_refs 2) (0, 0) (0, 1) (grid_store 2 [] (0, 0) (0, 1)) =
     Some (nodes ((bfs_step (0, 0) (0, 1) ^^ 1) (bfs_init (0, 0) (grid_store 2 [] (0, 0) (0, 1)))),
           (False, visited_nodes_count
              ((bfs_step (0, 0) (0, 1) ^^ 1) (bfs_init (0, 0) (grid_store 2 [] (0, 0) (0, 1)))), 0)) \<and>
   (\<exists>st1 st0. bfs [Go, Quit] (grid_refs 2) (0, 0) (0, 1) (grid_store 2 [] (0, 0) (0, 1))
                  = Some (st1, (False, 0, 0)) \<and>
              bfs [] (grid_refs 2) (0, 0) (0, 1) (grid_store 2 [] (0, 0) (0, 1))
                  = Some (st0, (True, 1, 1)) \<and> (0::nat) \<le> 1)"
proof -
  let ?st = "grid_store 2 [] (0, 0) (0, 1)"
  obtain st1 where c: "bfs [Go, Quit] (grid_refs 2) (0, 0) (0, 1) ?st = Some (st1, (False, 0, 0))"
    using demo_bfs_cancelled by blast
  obtain st0 where u: "bfs [] (grid_refs 2) (0, 0) (0, 1) ?st = Some (st0, (True, 1, 1))"
    using demo_bfs_result by blast
  note t = cancelled_run_result
    [where a = "(0, 0)" and b = "(0, 1)" and st = ?st and k = 1 and rest = "[]"
       and grid = "grid_refs 2" and sigs = "[Go, Quit]" and ?st1.0 = st1 and ?st0.0 = st0
       and ?f1.0 = False and ?v1.0 = 0 and ?p1.0 = 0 and ?f0.0 = True and ?v0.0 = 1 and ?p0.0 = 1]
  from t demo_bfs_runs c u show ?thesis by blast
qed

lemma heappop_Some:
  assumes "heappop hp = Some (m, rest)"
  shows "m \<in> set hp \<and> rest = remove1 m hp"
proof -
  have mem: "foldl (\<lambda>m x. if entry_less x m then x else m) e es \<in> set (e # es)" for e es
    by (induction es arbitrary: e) (auto split: if_splits)
  from assms obtain e es where hp: "hp = e # es" by (cases hp) (auto simp: heappop_def)
  with assms mem [of e es] show ?thesis by (auto simp: heappop_def Let_def)
qed

lemma distinct_map_remove1:
  "distinct (map f xs) \<Longrightarrow> distinct (map f (remove1 x xs))"
  by (induction xs) (auto simp: image_iff dest: notin_set_remove1)

lemma set_map_remove1:
  "distinct (map f xs) \<Longrightarrow> x \<in> set xs \<Longrightarrow> set (map f (remove1 x xs)) = set (map f xs) - {f x}"
proof (induction xs)
  case Nil
  then show ?case by simp
next
  case (Cons y ys)
  show ?case
  proof (cases "x = y")
    case True
    with Cons.prems show ?thesis by auto
  next
    case False
    with Cons.prems have "x \<in> set ys" "distinct (map f ys)" "f y \<notin> f ` set ys" by auto
    with Cons.IH False show ?thesis by auto
  qed
qed

lemma heap_inv_pop:
  assumes "heap_inv s" "heappop (open_set s) = Some ((k, tb, cur), rest)" "raised s = None"
    "cur \<in> open_set_hash s"
  shows "heap_inv (s\<lparr>open_set := rest, open_set_hash := open_set_hash s - {cur}\<rparr>)"
proof -
  from heappop_Some [OF assms(2)] have m: "(k, tb, cur) \<in> set (open_set s)"
    and r: "rest = remove1 (k, tb, cur) (open_set s)" by simp_all
  have "set rest \<subseteq> set (open_set s)" unfolding r by (rule set_remove1_subset)
  moreover have "distinct (seq_numbers rest)"
    using assms(1) unfolding r seq_numbers_def heap_inv_def by (simp add: distinct_map_remove1)
  moreover have "distinct (pending rest)"
    using assms(1,3) unfolding r pending_def heap_inv_def by (simp add: distinct_map_remove1)
  moreover have "set (pending rest) = set (pending (open_set s)) - {cur}"
    using assms(1,3) m set_map_remove1 [of "\<lambda>e. snd (snd e)" "open_set s" "(k, tb, cur)"]
    unfolding r pending_def heap_inv_def by simp
  ultimately show ?thesis using assms(1,3) by (auto simp: heap_inv_def seq_numbers_def)
qed

lemma dijkstra_relax_heap_inv:
  "heap_inv s \<Longrightarrow> heap_inv (dijkstra_relax cur b s x)"
  by (auto simp: heap_inv_def dijkstra_relax_def Let_def heappush_def seq_numbers_def pending_def
      split: option.splits)

lemma astar_relax_heap_inv:
  "heap_inv s \<Longrightarrow> heap_inv (astar_relax cur b s x)"
  by (auto simp: heap_inv_def astar_relax_def Let_def heappush_def seq_numbers_def pending_def
      split: option.splits)

lemma heap_inv_raised: 
  "heap_inv s \<Longrightarrow> heap_inv (s\<lparr>raised := Some e\<rparr>)"
  by (simp add: heap_inv_def)

lemma heap_inv_raised_pop:
  assumes "heap_inv s" "heappop (open_set s) = Some (m, rest)"
  shows "heap_inv (s\<lparr>open_set := rest, raised := Some e\<rparr>)"
proof -
  from heappop_Some [OF assms(2)] have r: "rest = remove1 m (open_set s)" by simp
  have "set rest \<subseteq> set (open_set s)" unfolding r by (rule set_remove1_subset)
  moreover have "distinct (seq_numbers rest)"
    using assms(1) unfolding r seq_numbers_def heap_inv_def by (simp add: distinct_map_remove1)
  ultimately show ?thesis using assms(1) by (auto simp: heap_inv_def seq_numbers_def)
qed

lemma heap_inv_other:
  "heap_inv s \<Longrightarrow> heap_inv (s\<lparr>nodes := n, visited_nodes_count := v\<rparr>)"
  "heap_inv s \<Longrightarrow> heap_inv (s\<lparr>reached := True\<rparr>)"
  by (simp_all add: heap_inv_def)

lemma dijkstra_step_shape:
  assumes "heappop (open_set s) = Some ((k, tb, cur), rest)" "cur \<in> open_set_hash s"
    and "s1 = s\<lparr>open_set := rest, open_set_hash := open_set_hash s - {cur}\<rparr>"
    and "s2 = foldl (dijkstra_relax cur b) s1 (neighbors (nodes s1 cur))"
  shows "dijkstra_step a b s =
     (case g_score s cur of
        None \<Rightarrow> s1\<lparr>raised := Some KeyError\<rparr>
      | Some g \<Rightarrow>
          if k > g then s1
          else if cur = b then s1\<lparr>reached := True\<rparr>
          else if raised s2 \<noteq> None then s2
          else if cur \<noteq> a \<and> cur \<noteq> b
          then s2\<lparr>nodes := upd cur make_closed (nodes s2),
                  visited_nodes_count := visited_nodes_count s2 + 1\<rparr>
          else s2)"
  using assms(1,2) unfolding assms(3,4)
  by (simp add: dijkstra_step_def Let_def split: option.splits)

lemma astar_step_shape:
  assumes "heappop (open_set s) = Some ((k, tb, cur), rest)" "cur \<in> open_set_hash s"
    and "s1 = s\<lparr>open_set := rest, open_set_hash := open_set_hash s - {cur}\<rparr>"
    and "s2 = foldl (astar_relax cur b) s1 (neighbors (nodes s1 cur))"
  shows "astar_step a b s =
     (case f_score s cur of
        None \<Rightarrow> s1\<lparr>raised := Some KeyError\<rparr>
      | Some f \<Rightarrow>
          if k > f then s1
          else if cur = b then s1\<lparr>reached := True\<rparr>
          else if raised s2 \<noteq> None then s2
          else if cur \<noteq> a \<and> cur \<noteq> b
          then s2\<lparr>nodes := upd cur make_closed (nodes s2),
                  visited_nodes_count := visited_nodes_count s2 + 1\<rparr>
          else s2)"
  using assms(1,2) unfolding assms(3,4)
  by (simp add: astar_step_def Let_def split: option.splits)

lemma dijkstra_step_heap_inv:
  assumes "heap_inv s" "raised s = None"
  shows "heap_inv (dijkstra_step a b s)"
proof (cases "heappop (open_set s)")
  case None
  with assms show ?thesis by (simp add: dijkstra_step_def heap_inv_raised)
next
  case (Some p)
  obtain k tb cur rest where p: "p = ((k, tb, cur), rest)" by (cases p) auto
  note hp = Some [unfolded p]
  show ?thesis
  proof (cases "cur \<in> open_set_hash s")
    case False
    with heap_inv_raised_pop [OF assms(1) hp] show ?thesis
      by (simp add: dijkstra_step_def hp)
  next
    case True
    define s1 where "s1 = s\<lparr>open_set := rest, open_set_hash := open_set_hash s - {cur}\<rparr>"
    define s2 where "s2 = foldl (dijkstra_relax cur b) s1 (neighbors (nodes s1 cur))"
    have i1: "heap_inv s1" unfolding s1_def by (rule heap_inv_pop [OF assms(1) hp assms(2) True])
    have i2: "heap_inv s2" unfolding s2_def
      by (rule foldl_inv [where P = heap_inv, OF i1]) (rule dijkstra_relax_heap_inv)
    show ?thesis
      unfolding dijkstra_step_shape [OF hp True s1_def s2_def]
      using i1 i2 by (simp add: heap_inv_raised heap_inv_other split: option.splits)
  qed
qed

lemma astar_step_heap_inv:
  assumes "heap_inv s" "raised s = None"
  shows "heap_inv (astar_step a b s)"
proof (cases "heappop (open_set s)")
  case None
  with assms show ?thesis by (simp add: astar_step_def heap_inv_raised)
next
  case (Some p)
  obtain k tb cur rest where p: "p = ((k, tb, cur), rest)" by (cases p) auto
  note hp = Some [unfolded p]
  show ?thesis
  proof (cases "cur \<in> open_set_hash s")
    case False
    with heap_inv_raised_pop [OF assms(1) hp] show ?thesis
      by (simp add: astar_step_def hp)
  next
    case True
    define s1 where "s1 = s\<lparr>open_set := rest, open_set_hash := open_set_hash s - {cur}\<rparr>"
    define s2 where "s2 = foldl (astar_relax cur b) s1 (neighbors (nodes s1 cur))"
    have i1: "heap_inv s1" unfolding s1_def by (rule heap_inv_pop [OF assms(1) hp assms(2) True])
    have i2: "heap_inv s2" unfolding s2_def
      by (rule foldl_inv [where P = heap_inv, OF i1]) (rule astar_relax_heap_inv)
    show ?thesis
      unfolding astar_step_shape [OF hp True s1_def s2_def]
      using i1 i2 by (simp add: heap_inv_raised heap_inv_other split: option.splits)
  qed
qed

lemma dijkstra_run_heap_inv:
  assumes "runs pq_running (dijkstra_step a b) (dijkstra_init grid a st) k"
  shows "heap_inv ((dijkstra_step a b ^^ k) (dijkstra_init grid a st))"
  using assms
proof (rule run_state_inv [where P = heap_inv])
  show "heap_inv (dijkstra_init grid a st)"
    by (simp add: heap_inv_def dijkstra_init_def seq_numbers_def pending_def)
  show "heap_inv (dijkstra_step a b t)" if "heap_inv t" "pq_running t" for t
    using that by (simp add: dijkstra_step_heap_inv pq_running_def)
qed

lemma astar_run_heap_inv:
  assumes "runs pq_running (astar_step a b) (astar_init grid a b st) k"
  shows "heap_inv ((astar_step a b ^^ k) (astar_init grid a b st))"
  using assms
proof (rule run_state_inv [where P = heap_inv])
  show "heap_inv (astar_init grid a b st)"
    by (simp add: heap_inv_def astar_init_def seq_numbers_def pending_def)
  show "heap_inv (astar_step a b t)" if "heap_inv t" "pq_running t" for t
    using that by (simp add: astar_step_heap_inv pq_running_def)
qed

lemma dijkstra_relax_rule:
  assumes "raised s = None" "color (nodes s n) \<noteq> BLACK" "g_score s c = Some gc" "g_score s n = Some gn"
  shows "(gc + 1 < gn \<longrightarrow>
         g_score (dijkstra_relax c e s n) n = Some (gc + 1) \<and>
         came_from (dijkstra_relax c e s n) n = Some c) \<and>
      (\<not> gc + 1 < gn \<longrightarrow> dijkstra_relax c e s n = s) \<and>
      (gc + 1 < gn \<and> n \<notin> open_set_hash s \<longrightarrow>
         open_set (dijkstra_relax c e s n) = open_set s @ [(gc + 1, count s + 1, n)] \<and>
         count (dijkstra_relax c e s n) = count s + 1 \<and>
         open_set_hash (dijkstra_relax c e s n) = insert n (open_set_hash s) \<and>
         (n \<noteq> e \<longrightarrow> color (nodes (dijkstra_relax c e s n) n) = GREEN)) \<and>
      (n \<in> open_set_hash s \<longrightarrow>
         open_set (dijkstra_relax c e s n) = open_set s \<and>
         count (dijkstra_relax c e s n) = count s \<and>
         open_set_hash (dijkstra_relax c e s n) = open_set_hash s \<and>
         nodes (dijkstra_relax c e s n) = nodes s) \<and>
      (\<forall>m. m \<noteq> n \<longrightarrow>
         g_score (dijkstra_relax c e s n) m = g_score s m \<and>
         came_from (dijkstra_relax c e s n) m = came_from s m)"
  using assms
  by (simp add: dijkstra_relax_def Let_def upd_def is_barrier_def make_open_def heappush_def)

lemma astar_relax_rule:
  assumes "raised z = None" "color (nodes z n) \<noteq> BLACK" "g_score z c = Some gc" "g_score z n = Some gn"
  shows "(gc + 1 < gn \<longrightarrow>
         g_score (astar_relax c e z n) n = Some (gc + 1) \<and>
         came_from (astar_relax c e z n) n = Some c \<and>
         f_score (astar_relax c e z n) n = Some (gc + 1 + h_score (nodes z) n e)) \<and>
      (\<not> gc + 1 < gn \<longrightarrow> astar_relax c e z n = z) \<and>
      (gc + 1 < gn \<and> n \<notin> open_set_hash z \<longrightarrow>
         open_set (astar_relax c e z n) =
           open_set z @ [(gc + 1 + h_score (nodes z) n e, count z + 1, n)] \<and>
         count (astar_relax c e z n) = count z + 1 \<and>
         open_set_hash (astar_relax c e z n) = insert n (open_set_hash z) \<and>
         (n \<noteq> e \<longrightarrow> color (nodes (astar_relax c e z n) n) = GREEN)) \<and>
      (n \<in> open_set_hash z \<longrightarrow>
         open_set (astar_relax c e z n) = open_set z \<and>
         count (astar_relax c e z n) = count z \<and>
         open_set_hash (astar_relax c e z n) = open_set_hash z \<and>
         nodes (astar_relax c e z n) = nodes z) \<and>
      (\<forall>m. m \<noteq> n \<longrightarrow>
         g_score (astar_relax c e z n) m = g_score z m \<and>
         came_from (astar_relax c e z n) m = came_from z m \<and>
         f_score (astar_relax c e z n) m = f_score z m)"
  using assms
  by (simp add: astar_relax_def Let_def upd_def is_barrier_def make_open_def heappush_def)

lemma dijkstra_stale:
  assumes "heappop (open_set s) = Some ((k, tb, cur), rest)" "cur \<in> open_set_hash s"
    "g_score s cur = Some g" "k > g"
  shows "dijkstra_step a e s = s\<lparr>open_set := rest, open_set_hash := open_set_hash s - {cur}\<rparr>"
  using assms by (simp add: dijkstra_step_shape [OF assms(1,2) refl refl])

lemma astar_stale:
  assumes "heappop (open_set z) = Some ((k, tb, cur), rest)" "cur \<in> open_set_hash z"
    "f_score z cur = Some f" "k > f"
  shows "astar_step a e z = z\<lparr>open_set := rest, open_set_hash := open_set_hash z - {cur}\<rparr>"
  using assms by (simp add: astar_step_shape [OF assms(1,2) refl refl])

lemma dijkstra_expand:
  assumes "heappop (open_set s) = Some ((k, tb, cur), rest)" "cur \<in> open_set_hash s"
    "g_score s cur = Some g" "\<not> k > g" "cur \<noteq> e"
  shows "dijkstra_step a e s =
     (let s2 = foldl (dijkstra_relax cur e)
                 (s\<lparr>open_set := rest, open_set_hash := open_set_hash s - {cur}\<rparr>)
                 (neighbors (nodes s cur))
      in if raised s2 \<noteq> None then s2
         else if cur \<noteq> a
         then s2\<lparr>nodes := (nodes s2)(cur := (nodes s2 cur)\<lparr>color := RED\<rparr>),
                 visited_nodes_count := visited_nodes_count s2 + 1\<rparr>
         else s2)"
  using assms(3-)
  by (simp add: dijkstra_step_shape [OF assms(1,2) refl refl] Let_def upd_def make_closed_def)

lemma astar_expand:
  assumes "heappop (open_set z) = Some ((k, tb, cur), rest)" "cur \<in> open_set_hash z"
    "f_score z cur = Some g" "\<not> k > g" "cur \<noteq> e"
  shows "astar_step a e z =
     (let z2 = foldl (astar_relax cur e)
                 (z\<lparr>open_set := rest, open_set_hash := open_set_hash z - {cur}\<rparr>)
                 (neighbors (nodes z cur))
      in if raised z2 \<noteq> None then z2
         else if cur \<noteq> a
         then z2\<lparr>nodes := (nodes z2)(cur := (nodes z2 cur)\<lparr>color := RED\<rparr>),
                 visited_nodes_count := visited_nodes_count z2 + 1\<rparr>
         else z2)"
  using assms(3-)
  by (simp add: astar_step_shape [OF assms(1,2) refl refl] Let_def upd_def make_closed_def)

lemma dijkstra_relax_barrier:
  "color (nodes s n) = BLACK \<Longrightarrow> dijkstra_relax c e s n = s"
  by (simp add: dijkstra_relax_def is_barrier_def)

lemma astar_relax_barrier:
  "color (nodes z n) = BLACK \<Longrightarrow> astar_relax c e z n = z"
  by (simp add: astar_relax_def is_barrier_def)

lemma entry_less_chain:
  "\<not> entry_less a m \<Longrightarrow> \<not> entry_less x a \<Longrightarrow> \<not> entry_less x m"
  by (auto simp: entry_less_def)

lemma fold_min_least:
  "x \<in> set (e0 # es) \<Longrightarrow> \<not> entry_less x (foldl (\<lambda>m x. if entry_less x m then x else m) e0 es)"
proof (induction es arbitrary: e0 x)
  case Nil
  then show ?case by (simp add: entry_less_def)
next
  case (Cons y ys)
  let ?f = "\<lambda>m x. if entry_less x m then x else m"
  let ?M = "foldl ?f (?f e0 y) ys"
  have m: "\<not> entry_less (?f e0 y) ?M" by (rule Cons.IH) simp
  have le: "\<not> entry_less e0 (?f e0 y)" "\<not> entry_less y (?f e0 y)"
    by (auto simp: entry_less_def)
  from Cons.prems consider "x = e0" | "x = y" | "x \<in> set ys" by auto
  then show ?case
  proof cases
    case 1
    with entry_less_chain [OF m le(1)] show ?thesis by simp
  next
    case 2
    with entry_less_chain [OF m le(2)] show ?thesis by simp
  next
    case 3
    then have "\<not> entry_less x ?M" by (intro Cons.IH) simp
    then show ?thesis by simp
  qed
qed

lemma heappop_least:
  "heappop hp = None \<longleftrightarrow> hp = []"
  "heappop hp = Some (m, rest) \<Longrightarrow>
     m \<in> set hp \<and> rest = remove1 m hp \<and> (\<forall>x \<in> set hp. \<not> entry_less x m)"
proof -
  show "heappop hp = None \<longleftrightarrow> hp = []"
    by (cases hp) (simp_all add: heappop_def Let_def)
  assume a: "heappop hp = Some (m, rest)"
  then obtain e0 es where hp: "hp = e0 # es" by (cases hp) (auto simp: heappop_def)
  with a have m: "m = foldl (\<lambda>m x. if entry_less x m then x else m) e0 es"
    by (auto simp: heappop_def Let_def)
  have "\<forall>x \<in> set hp. \<not> entry_less x m" unfolding hp m using fold_min_least by blast
  with heappop_Some [OF a] show
    "m \<in> set hp \<and> rest = remove1 m hp \<and> (\<forall>x \<in> set hp. \<not> entry_less x m)" by blast
qed

text \<open>
  Claim C3.  In Dijkstra and in A*, an iteration pops the least entry of the heap (least
  score, ties broken by the smaller sequence number) and removes its cell from
  \<open>open_set_hash\<close>.  If the key of the entry is greater than the current score of the cell,
  nothing else happens: the entry is skipped and no cell is expanded.  Otherwise, unless the
  cell is the end cell, the cell \<open>cur\<close> is expanded: the relaxation is applied to the
  neighbours of \<open>cur\<close>, one after the other in the order of its neighbour list, and then
  \<open>cur\<close> is tagged Visited and counted (unless it is the start cell).
  The relaxation of a neighbour \<open>n\<close> of \<open>c\<close> that is not tagged Barrier, with scores
  \<open>g[c] = gc\<close> and \<open>g[n] = gn\<close>: if \<open>gc + 1 < gn\<close> then \<open>g[n]\<close> becomes \<open>gc + 1\<close> and the
  predecessor of \<open>n\<close> becomes \<open>c\<close> (and in A* \<open>f[n]\<close> becomes \<open>gc + 1 + h(n, end)\<close>);
  otherwise the state is unchanged.  The scores and predecessors of the other cells are
  never touched.  If moreover \<open>n\<close> is not in \<open>open_set_hash\<close>, the entry of \<open>n\<close> with the
  sequence number \<open>count + 1\<close> is added to the heap, the counter becomes \<open>count + 1\<close>, \<open>n\<close>
  enters \<open>open_set_hash\<close> and is tagged Frontier unless it is the end cell; if \<open>n\<close> is in
  \<open>open_set_hash\<close>, heap, counter and tags stay as they are.  A neighbour tagged Barrier is
  passed over.  In every state of a run no sequence number in the heap exceeds the counter
  and no two entries share one, so each pushed number is fresh and greater than all before
  it, and \<open>open_set_hash\<close> is exactly the set of cells with an entry in the heap.
\<close>

theorem relaxation_rule:
  fixes s :: pq_state and z :: astar_state
  shows
  "(raised s = None \<and> color (nodes s n) \<noteq> BLACK \<and> g_score s c = Some gc \<and> g_score s n = Some gn \<longrightarrow>
      (gc + 1 < gn \<longrightarrow>
         g_score (dijkstra_relax c e s n) n = Some (gc + 1) \<and>
         came_from (dijkstra_relax c e s n) n = Some c) \<and>
      (\<not> gc + 1 < gn \<longrightarrow> dijkstra_relax c e s n = s) \<and>
      (gc + 1 < gn \<and> n \<notin> open_set_hash s \<longrightarrow>
         open_set (dijkstra_relax c e s n) = open_set s @ [(gc + 1, count s + 1, n)] \<and>
         count (dijkstra_relax c e s n) = count s + 1 \<and>
         open_set_hash (dijkstra_relax c e s n) = insert n (open_set_hash s) \<and>
         (n \<noteq> e \<longrightarrow> color (nodes (dijkstra_relax c e s n) n) = GREEN)) \<and>
      (n \<in> open_set_hash s \<longrightarrow>
         open_set (dijkstra_relax c e s n) = open_set s \<and>
         count (dijkstra_relax c e s n) = count s \<and>
         open_set_hash (dijkstra_relax c e s n) = open_set_hash s \<and>
         nodes (dijkstra_relax c e s n) = nodes s) \<and>
      (\<forall>m. m \<noteq> n \<longrightarrow>
         g_score (dijkstra_relax c e s n) m = g_score s m \<and>
         came_from (dijkstra_relax c e s n) m = came_from s m)) \<and>
   (raised z = None \<and> color (nodes z n) \<noteq> BLACK \<and> g_score z c = Some gc \<and> g_score z n = Some gn \<longrightarrow>
      (gc + 1 < gn \<longrightarrow>
         g_score (astar_relax c e z n) n = Some (gc + 1) \<and>
         came_from (astar_relax c e z n) n = Some c \<and>
         f_score (astar_relax c e z n) n = Some (gc + 1 + h_score (nodes z) n e)) \<and>
      (\<not> gc + 1 < gn \<longrightarrow> astar_relax c e z n = z) \<and>
      (gc + 1 < gn \<and> n \<notin> open_set_hash z \<longrightarrow>
         open_set (astar_relax c e z n) =
           open_set z @ [(gc + 1 + h_score (nodes z) n e, count z + 1, n)] \<and>
         count (astar_relax c e z n) = count z + 1 \<and>
         open_set_hash (astar_relax c e z n) = insert n (open_set_hash z) \<and>
         (n \<noteq> e \<longrightarrow> color (nodes (astar_relax c e z n) n) = GREEN)) \<and>
      (n \<in> open_set_hash z \<longrightarrow>
         open_set (astar_relax c e z n) = open_set z \<and>
         count (astar_relax c e z n) = count z \<and>
         open_set_hash (astar_relax c e z n) = open_set_hash z \<and>
         nodes (astar_relax c e z n) = nodes z) \<and>
      (\<forall>m. m \<noteq> n \<longrightarrow>
         g_score (astar_relax c e z n) m = g_score z m \<and>
         came_from (astar_relax c e z n) m = came_from z m \<and>
         f_score (astar_relax c e z n) m = f_score z m)) \<and>
   (heappop (open_set s) = Some ((k, tb, cur), rest) \<and> cur \<in> open_set_hash s \<and>
    g_score s cur = Some g \<and> k > g \<longrightarrow>
      dijkstra_step a e s = s\<lparr>open_set := rest, open_set_hash := open_set_hash s - {cur}\<rparr>) \<and>
   (heappop (open_set z) = Some ((k, tb, cur), rest) \<and> cur \<in> open_set_hash z \<and>
    f_score z cur = Some g \<and> k > g \<longrightarrow>
      astar_step a e z = z\<lparr>open_set := rest, open_set_hash := open_set_hash z - {cur}\<rparr>) \<and>
   (runs pq_running (dijkstra_step a e) (dijkstra_init grid a st) j \<longrightarrow>
      heap_inv ((dijkstra_step a e ^^ j) (dijkstra_init grid a st))) \<and>
   (runs pq_running (astar_step a e) (astar_init grid a e st) j \<longrightarrow>
      heap_inv ((astar_step a e ^^ j) (astar_init grid a e st))) \<and>
   (heappop (open_set s) = Some ((k, tb, cur), rest) \<and> cur \<in> open_set_hash s \<and>
    g_score s cur = Some g \<and> \<not> k > g \<and> cur \<noteq> e \<longrightarrow>
      dijkstra_step a e s =
        (let s2 = foldl (dijkstra_relax cur e)
                    (s\<lparr>open_set := rest, open_set_hash := open_set_hash s - {cur}\<rparr>)
                    (neighbors (nodes s cur))
         in if raised s2 \<noteq> None then s2
            else if cur \<noteq> a
            then s2\<lparr>nodes := (nodes s2)(cur := (nodes s2 cur)\<lparr>color := RED\<rparr>),
                    visited_nodes_count := visited_nodes_count s2 + 1\<rparr>
            else s2)) \<and>
   (heappop (open_set z) = Some ((k, tb, cur), rest) \<and> cur \<in> open_set_hash z \<and>
    f_score z cur = Some g \<and> \<not> k > g \<and> cur \<noteq> e \<longrightarrow>
      astar_step a e z =
        (let z2 = foldl (astar_relax cur e)
                    (z\<lparr>open_set := rest, open_set_hash := open_set_hash z - {cur}\<rparr>)
                    (neighbors (nodes z cur))
         in if raised z2 \<noteq> None then z2
            else if cur \<noteq> a
            then z2\<lparr>nodes := (nodes z2)(cur := (nodes z2 cur)\<lparr>color := RED\<rparr>),
                    visited_nodes_count := visited_nodes_count z2 + 1\<rparr>
            else z2)) \<and>
   (color (nodes s n) = BLACK \<longrightarrow> dijkstra_relax c e s n = s) \<and>
   (color (nodes z n) = BLACK \<longrightarrow> astar_relax c e z n = z) \<and>
   (heappop hp = Some (m, rest) \<longrightarrow>
      m \<in> set hp \<and> rest = remove1 m hp \<and>
      (\<forall>x \<in> set hp.
         \<not> (fst x < fst m \<or> fst x = fst m \<and> fst (snd x) < fst (snd m))))"
proof -
  have D: "(raised s = None \<and> color (nodes s n) \<noteq> BLACK \<and> g_score s c = Some gc \<and> g_score s n = Some gn \<longrightarrow>
      (gc + 1 < gn \<longrightarrow>
         g_score (dijkstra_relax c e s n) n = Some (gc + 1) \<and>
         came_from (dijkstra_relax c e s n) n = Some c) \<and>
      (\<not> gc + 1 < gn \<longrightarrow> dijkstra_relax c e s n = s) \<and>
      (gc + 1 < gn \<and> n \<notin> open_set_hash s \<longrightarrow>
         open_set (dijkstra_relax c e s n) = open_set s @ [(gc + 1, count s + 1, n)] \<and>
         count (dijkstra_relax c e s n) = count s + 1 \<and>
         open_set_hash (dijkstra_relax c e s n) = insert n (open_set_hash s) \<and>
         (n \<noteq> e \<longrightarrow> color (nodes (dijkstra_relax c e s n) n) = GREEN)) \<and>
      (n \<in> open_set_hash s \<longrightarrow>
         open_set (dijkstra_relax c e s n) = open_set s \<and>
         count (dijkstra_relax c e s n) = count s \<and>
         open_set_hash (dijkstra_relax c e s n) = open_set_hash s \<and>
         nodes (dijkstra_relax c e s n) = nodes s) \<and>
      (\<forall>m. m \<noteq> n \<longrightarrow>
         g_score (dijkstra_relax c e s n) m = g_score s m \<and>
         came_from (dijkstra_relax c e s n) m = came_from s m))"
    by (intro impI, elim conjE, rule dijkstra_relax_rule)
  have A: "(raised z = None \<and> color (nodes z n) \<noteq> BLACK \<and> g_score z c = Some gc \<and> g_score z n = Some gn \<longrightarrow>
      (gc + 1 < gn \<longrightarrow>
         g_score (astar_relax c e z n) n = Some (gc + 1) \<and>
         came_from (astar_relax c e z n) n = Some c \<and>
         f_score (astar_relax c e z n) n = Some (gc + 1 + h_score (nodes z) n e)) \<and>
      (\<not> gc + 1 < gn \<longrightarrow> astar_relax c e z n = z) \<and>
      (gc + 1 < gn \<and> n \<notin> open_set_hash z \<longrightarrow>
         open_set (astar_relax c e z n) =
           open_set z @ [(gc + 1 + h_score (nodes z) n e, count z + 1, n)] \<and>
         count (astar_relax c e z n) = count z + 1 \<and>
         open_set_hash (astar_relax c e z n) = insert n (open_set_hash z) \<and>
         (n \<noteq> e \<longrightarrow> color (nodes (astar_relax c e z n) n) = GREEN)) \<and>
      (n \<in> open_set_hash z \<longrightarrow>
         open_set (astar_relax c e z n) = open_set z \<and>
         count (astar_relax c e z n) = count z \<and>
         open_set_hash (astar_relax c e z n) = open_set_hash z \<and>
         nodes (astar_relax c e z n) = nodes z) \<and>
      (\<forall>m. m \<noteq> n \<longrightarrow>
         g_score (astar_relax c e z n) m = g_score z m \<and>
         came_from (astar_relax c e z n) m = came_from z m \<and>
         f_score (astar_relax c e z n) m = f_score z m))"
    by (intro impI, elim conjE, rule astar_relax_rule)
  have DS: "(heappop (open_set s) = Some ((k, tb, cur), rest) \<and> cur \<in> open_set_hash s \<and>
    g_score s cur = Some g \<and> k > g \<longrightarrow>
      dijkstra_step a e s = s\<lparr>open_set := rest, open_set_hash := open_set_hash s - {cur}\<rparr>)"
    by (intro impI, elim conjE, rule dijkstra_stale)
  have AS: "(heappop (open_set z) = Some ((k, tb, cur), rest) \<and> cur \<in> open_set_hash z \<and>
    f_score z cur = Some g \<and> k > g \<longrightarrow>
      astar_step a e z = z\<lparr>open_set := rest, open_set_hash := open_set_hash z - {cur}\<rparr>)"
    by (intro impI, elim conjE, rule astar_stale)
  have DI: "(runs pq_running (dijkstra_step a e) (dijkstra_init grid a st) j \<longrightarrow>
      heap_inv ((dijkstra_step a e ^^ j) (dijkstra_init grid a st)))"
    by (intro impI, rule dijkstra_run_heap_inv)
  have AI: "(runs pq_running (astar_step a e) (astar_init grid a e st) j \<longrightarrow>
      heap_inv ((astar_step a e ^^ j) (astar_init grid a e st)))"
    by (intro impI, rule astar_run_heap_inv)
  have DE: "(heappop (open_set s) = Some ((k, tb, cur), rest) \<and> cur \<in> open_set_hash s \<and>
    g_score s cur = Some g \<and> \<not> k > g \<and> cur \<noteq> e \<longrightarrow>
      dijkstra_step a e s =
        (let s2 = foldl (dijkstra_relax cur e)
                    (s\<lparr>open_set := rest, open_set_hash := open_set_hash s - {cur}\<rparr>)
                    (neighbors (nodes s cur))
         in if raised s2 \<noteq> None then s2
            else if cur \<noteq> a
            then s2\<lparr>nodes := (nodes s2)(cur := (nodes s2 cur)\<lparr>color := RED\<rparr>),
                    visited_nodes_count := visited_nodes_count s2 + 1\<rparr>
            else s2))"
    by (intro impI, elim conjE, rule dijkstra_expand)
  have AE: "(heappop (open_set z) = Some ((k, tb, cur), rest) \<and> cur \<in> open_set_hash z \<and>
    f_score z cur = Some g \<and> \<not> k > g \<and> cur \<noteq> e \<longrightarrow>
      astar_step a e z =
        (let z2 = foldl (astar_relax cur e)
                    (z\<lparr>open_set := rest, open_set_hash := open_set_hash z - {cur}\<rparr>)
                    (neighbors (nodes z cur))
         in if raised z2 \<noteq> None then z2
            else if cur \<noteq> a
            then z2\<lparr>nodes := (nodes z2)(cur := (nodes z2 cur)\<lparr>color := RED\<rparr>),
                    visited_nodes_count := visited_nodes_count z2 + 1\<rparr>
            else z2))"
    by (intro impI, elim conjE, rule astar_expand)
  have DB: "(color (nodes s n) = BLACK \<longrightarrow> dijkstra_relax c e s n = s)"
    by (intro impI, rule dijkstra_relax_barrier)
  have AB: "(color (nodes z n) = BLACK \<longrightarrow> astar_relax c e z n = z)"
    by (intro impI, rule astar_relax_barrier)
  have HP: "(heappop hp = Some (m, rest) \<longrightarrow>
      m \<in> set hp \<and> rest = remove1 m hp \<and>
      (\<forall>x \<in> set hp.
         \<not> (fst x < fst m \<or> fst x = fst m \<and> fst (snd x) < fst (snd m))))"
    using heappop_least(2) [of hp m rest] by (simp add: entry_less_def)
  show ?thesis by (intro conjI) (rule D A DS AS DI AI DE AE DB AB HP)+
qed

theorem relaxation_rule_witness:
  "raised demo_pq = None \<and> color (nodes demo_pq (1, 0)) \<noteq> BLACK \<and>
   g_score demo_pq (0, 0) = Some 0 \<and> g_score demo_pq (1, 0) = Some \<infinity> \<and>
   (0::enat) + 1 < \<infinity> \<and> (1, 0) \<notin> open_set_hash demo_pq \<and>
   g_score (dijkstra_relax (0, 0) (0, 1) demo_pq (1, 0)) (1, 0) = Some (0 + 1) \<and>
   came_from (dijkstra_relax (0, 0) (0, 1) demo_pq (1, 0)) (1, 0) = Some (0, 0) \<and>
   count (dijkstra_relax (0, 0) (0, 1) demo_pq (1, 0)) = count demo_pq + 1 \<and>
   raised demo_astar = None \<and> color (nodes demo_astar (1, 0)) \<noteq> BLACK \<and>
   g_score demo_astar (0, 0) = Some 0 \<and> g_score demo_astar (1, 0) = Some \<infinity> \<and>
   f_score (astar_relax (0, 0) (0, 1) demo_astar (1, 0)) (1, 0)
     = Some (0 + 1 + h_score (nodes demo_astar) (1, 0) (0, 1)) \<and>
   heappop (open_set stale_pq) = Some ((5, 1, (1, 0)), []) \<and> (1, 0) \<in> open_set_hash stale_pq \<and>
   g_score stale_pq (1, 0) = Some 3 \<and> (5::enat) > 3 \<and>
   dijkstra_step (0, 0) (0, 1) stale_pq
     = stale_pq\<lparr>open_set := [], open_set_hash := open_set_hash stale_pq - {(1, 0)}\<rparr> \<and>
   heappop (open_set stale_astar) = Some ((5, 1, (1, 0)), []) \<and> (1, 0) \<in> open_set_hash stale_astar \<and>
   f_score stale_astar (1, 0) = Some 3 \<and>
   astar_step (0, 0) (0, 1) stale_astar
     = stale_astar\<lparr>open_set := [], open_set_hash := open_set_hash stale_astar - {(1, 0)}\<rparr> \<and>
   heappop (open_set demo_pq) = Some ((0, 0, (0, 0)), []) \<and> (0, 0) \<in> open_set_hash demo_pq \<and>
   \<not> (0::enat) > 0 \<and>
   dijkstra_step (0, 0) (0, 1) demo_pq =
     (let s2 = foldl (dijkstra_relax (0, 0) (0, 1))
                 (demo_pq\<lparr>open_set := [], open_set_hash := open_set_hash demo_pq - {(0, 0)}\<rparr>)
                 (neighbors (nodes demo_pq (0, 0)))
      in if raised s2 \<noteq> None then s2
         else if (0, 0) \<noteq> (0::int, 0::int)
         then s2\<lparr>nodes := (nodes s2)((0, 0) := (nodes s2 (0, 0))\<lparr>color := RED\<rparr>),
                 visited_nodes_count := visited_nodes_count s2 + 1\<rparr>
         else s2) \<and>
   runs pq_running (dijkstra_step (0, 0) (0, 1))
     (dijkstra_init (grid_refs 2) (0, 0) (grid_store 2 [] (0, 0) (0, 1))) 1 \<and>
   heap_inv ((dijkstra_step (0, 0) (0, 1) ^^ 1)
     (dijkstra_init (grid_refs 2) (0, 0) (grid_store 2 [] (0, 0) (0, 1)))) \<and>
   runs pq_running (astar_step (0, 0) (0, 1))
     (astar_init (grid_refs 2) (0, 0) (0, 1) (grid_store 2 [] (0, 0) (0, 1))) 1 \<and>
   heap_inv ((astar_step (0, 0) (0, 1) ^^ 1)
     (astar_init (grid_refs 2) (0, 0) (0, 1) (grid_store 2 [] (0, 0) (0, 1))))"
proof -
  have h1: "raised demo_pq = None" "color (nodes demo_pq (1, 0)) \<noteq> BLACK"
    "g_score demo_pq (0, 0) = Some 0" "g_score demo_pq (1, 0) = Some \<infinity>"
    "(1, 0) \<notin> open_set_hash demo_pq"
    by (simp_all add: demo_pq_def dijkstra_init_def inf_scores_def grid_refs_2 grid_store_def
        set_neighbors_def marked_def is_barrier_def Node_init_def in_bounds_def)
  have h2: "raised demo_astar = None" "color (nodes demo_astar (1, 0)) \<noteq> BLACK"
    "g_score demo_astar (0, 0) = Some 0" "g_score demo_astar (1, 0) = Some \<infinity>"
    by (simp_all add: demo_astar_def astar_init_def inf_scores_def grid_refs_2 grid_store_def
        set_neighbors_def marked_def is_barrier_def Node_init_def in_bounds_def)
  have lt: "(0::enat) + 1 < \<infinity>" "(5::enat) > 3" by simp_all
  have h3: "heappop (open_set stale_pq) = Some ((5, 1, (1, 0)), [])" "(1, 0) \<in> open_set_hash stale_pq"
    "g_score stale_pq (1, 0) = Some 3"
    by (simp_all add: stale_pq_def heappop_def)
  have h4: "heappop (open_set stale_astar) = Some ((5, 1, (1, 0)), [])"
    "(1, 0) \<in> open_set_hash stale_astar" "f_score stale_astar (1, 0) = Some 3"
    by (simp_all add: stale_astar_def heappop_def)
  have r1: "runs pq_running (dijkstra_step (0, 0) (0, 1))
     (dijkstra_init (grid_refs 2) (0, 0) (grid_store 2 [] (0, 0) (0, 1))) 1"
    by (simp add: pq_running_def dijkstra_init_def)
  have r2: "runs pq_running (astar_step (0, 0) (0, 1))
     (astar_init (grid_refs 2) (0, 0) (0, 1) (grid_store 2 [] (0, 0) (0, 1))) 1"
    by (simp add: pq_running_def astar_init_def)
  note t1 = relaxation_rule [where s = demo_pq and z = demo_astar and n = "(1, 0)" and c = "(0, 0)"
      and gc = 0 and gn = "\<infinity>" and e = "(0, 1)" and a = "(0, 0)" and grid = "grid_refs 2"
      and st = "grid_store 2 [] (0, 0) (0, 1)" and j = 1]
  have h5: "heappop (open_set demo_pq) = Some ((0, 0, (0, 0)), [])" "(0, 0) \<in> open_set_hash demo_pq"
    "\<not> (0::enat) > 0" "(0::int, 0::int) \<noteq> (0, 1)"
    by (simp_all add: demo_pq_def dijkstra_init_def heappop_def)
  note t3 = relaxation_rule [where s = demo_pq and k = 0 and tb = 0
      and cur = "(0, 0)" and rest = "[]" and g = 0 and a = "(0, 0)" and e = "(0, 1)"]
  from t3 h5 h1 have x3: "dijkstra_step (0, 0) (0, 1) demo_pq =
     (let s2 = foldl (dijkstra_relax (0, 0) (0, 1))
                 (demo_pq\<lparr>open_set := [], open_set_hash := open_set_hash demo_pq - {(0, 0)}\<rparr>)
                 (neighbors (nodes demo_pq (0, 0)))
      in if raised s2 \<noteq> None then s2
         else if (0, 0) \<noteq> (0::int, 0::int)
         then s2\<lparr>nodes := (nodes s2)((0, 0) := (nodes s2 (0, 0))\<lparr>color := RED\<rparr>),
                 visited_nodes_count := visited_nodes_count s2 + 1\<rparr>
         else s2)"
    by blast
  note t2 = relaxation_rule [where s = stale_pq and z = stale_astar and k = 5 and tb = 1
      and cur = "(1, 0)" and rest = "[]" and g = 3 and a = "(0, 0)" and e = "(0, 1)"]
  from t1 h1 h2 lt r1 r2 have
    "g_score (dijkstra_relax (0, 0) (0, 1) demo_pq (1, 0)) (1, 0) = Some (0 + 1)"
    "came_from (dijkstra_relax (0, 0) (0, 1) demo_pq (1, 0)) (1, 0) = Some (0, 0)"
    "count (dijkstra_relax (0, 0) (0, 1) demo_pq (1, 0)) = count demo_pq + 1"
    "f_score (astar_relax (0, 0) (0, 1) demo_astar (1, 0)) (1, 0)
       = Some (0 + 1 + h_score (nodes demo_astar) (1, 0) (0, 1))"
    "heap_inv ((dijkstra_step (0, 0) (0, 1) ^^ 1)
       (dijkstra_init (grid_refs 2) (0, 0) (grid_store 2 [] (0, 0) (0, 1))))"
    "heap_inv ((astar_step (0, 0) (0, 1) ^^ 1)
       (astar_init (grid_refs 2) (0, 0) (0, 1) (grid_store 2 [] (0, 0) (0, 1))))"
    by blast+
  moreover from t2 h3 h4 lt have
    "dijkstra_step (0, 0) (0, 1) stale_pq
       = stale_pq\<lparr>open_set := [], open_set_hash := open_set_hash stale_pq - {(1, 0)}\<rparr>"
    "astar_step (0, 0) (0, 1) stale_astar
       = stale_astar\<lparr>open_set := [], open_set_hash := open_set_hash stale_astar - {(1, 0)}\<rparr>"
    by blast+
  ultimately show ?thesis using h1 h2 h3 h4 h5 x3 lt r1 r2 by (intro conjI) assumption+
qed

lemma bfs_visit_waiting:
  "waiting_inv (queue s) (visited s) \<Longrightarrow>
     waiting_inv (queue (bfs_visit cur b s x)) (visited (bfs_visit cur b s x))"
  by (auto simp: waiting_inv_def bfs_visit_def)

lemma bfs_visit_done:
  "done_with y (queue s) (visited s) \<Longrightarrow>
     done_with y (queue (bfs_visit cur b s x)) (visited (bfs_visit cur b s x))"
  by (auto simp: done_with_def bfs_visit_def)

lemma dfs_visit_waiting:
  "waiting_inv (stack s) (visited s) \<Longrightarrow>
     waiting_inv (stack (dfs_visit cur b s x)) (visited (dfs_visit cur b s x))"
  by (auto simp: waiting_inv_def dfs_visit_def)

lemma dfs_visit_done:
  "done_with y (stack s) (visited s) \<Longrightarrow>
     done_with y (stack (dfs_visit cur b s x)) (visited (dfs_visit cur b s x))"
  by (auto simp: done_with_def dfs_visit_def)

lemma bfs_fold_facts:
  assumes "waiting_inv (queue s) (visited s)"
  shows "waiting_inv (queue (foldl (bfs_visit cur b) s xs)) (visited (foldl (bfs_visit cur b) s xs))"
    and "done_with y (queue s) (visited s) \<Longrightarrow>
         done_with y (queue (foldl (bfs_visit cur b) s xs)) (visited (foldl (bfs_visit cur b) s xs))"
proof -
  show "waiting_inv (queue (foldl (bfs_visit cur b) s xs)) (visited (foldl (bfs_visit cur b) s xs))"
    by (rule foldl_inv [where P = "\<lambda>t. waiting_inv (queue t) (visited t)", OF assms])
       (rule bfs_visit_waiting)
  assume d: "done_with y (queue s) (visited s)"
  show "done_with y (queue (foldl (bfs_visit cur b) s xs)) (visited (foldl (bfs_visit cur b) s xs))"
    by (rule foldl_inv [where P = "\<lambda>t. done_with y (queue t) (visited t)", OF d])
       (rule bfs_visit_done)
qed

lemma dfs_fold_facts:
  assumes "waiting_inv (stack s) (visited s)"
  shows "waiting_inv (stack (foldl (dfs_visit cur b) s xs)) (visited (foldl (dfs_visit cur b) s xs))"
    and "done_with y (stack s) (visited s) \<Longrightarrow>
         done_with y (stack (foldl (dfs_visit cur b) s xs)) (visited (foldl (dfs_visit cur b) s xs))"
proof -
  show "waiting_inv (stack (foldl (dfs_visit cur b) s xs)) (visited (foldl (dfs_visit cur b) s xs))"
    by (rule foldl_inv [where P = "\<lambda>t. waiting_inv (stack t) (visited t)", OF assms])
       (rule dfs_visit_waiting)
  assume d: "done_with y (stack s) (visited s)"
  show "done_with y (stack (foldl (dfs_visit cur b) s xs)) (visited (foldl (dfs_visit cur b) s xs))"
    by (rule foldl_inv [where P = "\<lambda>t. done_with y (stack t) (visited t)", OF d])
       (rule dfs_visit_done)
qed

lemma bfs_step_waiting:
  assumes w: "waiting_inv (queue s) (visited s)" and ne: "queue s \<noteq> []"
  shows "waiting_inv (queue (bfs_step a b s)) (visited (bfs_step a b s))"
    and "done_with (hd (queue s)) (queue (bfs_step a b s)) (visited (bfs_step a b s))"
    and "done_with y (queue s) (visited s) \<Longrightarrow>
         done_with y (queue (bfs_step a b s)) (visited (bfs_step a b s))"
proof -
  define s0 where "s0 = s\<lparr>queue := tl (queue s)\<rparr>"
  obtain c cs where q: "queue s = c # cs" using ne by (cases "queue s") auto
  have w0: "waiting_inv (queue s0) (visited s0)"
    using w by (auto simp: waiting_inv_def s0_def q)
  have d0: "done_with (hd (queue s)) (queue s0) (visited s0)"
    using w by (auto simp: waiting_inv_def done_with_def s0_def q)
  have y0: "done_with y (queue s) (visited s) \<Longrightarrow> done_with y (queue s0) (visited s0)"
    by (auto simp: done_with_def s0_def q)
  have shape: "queue (bfs_step a b s) = queue t \<and> visited (bfs_step a b s) = visited t"
    if "t = (if hd (queue s) = b then s0
             else foldl (bfs_visit (hd (queue s)) b) s0 (neighbors (nodes s0 (hd (queue s)))))" for t
    unfolding that by (simp add: bfs_step_def Let_def s0_def)
  show "waiting_inv (queue (bfs_step a b s)) (visited (bfs_step a b s))"
    using shape [OF refl] w0 bfs_fold_facts(1) [OF w0] by (auto split: if_splits)
  show "done_with (hd (queue s)) (queue (bfs_step a b s)) (visited (bfs_step a b s))"
    using shape [OF refl] d0 bfs_fold_facts(2) [OF w0 d0] by (auto split: if_splits)
  show "done_with y (queue s) (visited s) \<Longrightarrow>
         done_with y (queue (bfs_step a b s)) (visited (bfs_step a b s))"
    using shape [OF refl] y0 bfs_fold_facts(2) [OF w0] by (auto split: if_splits)
qed

lemma dfs_step_waiting:
  assumes w: "waiting_inv (stack s) (visited s)" and ne: "stack s \<noteq> []"
  shows "waiting_inv (stack (dfs_step a b s)) (visited (dfs_step a b s))"
    and "done_with (last (stack s)) (stack (dfs_step a b s)) (visited (dfs_step a b s))"
    and "done_with y (stack s) (visited s) \<Longrightarrow>
         done_with y (stack (dfs_step a b s)) (visited (dfs_step a b s))"
proof -
  define s0 where "s0 = s\<lparr>stack := butlast (stack s)\<rparr>"
  define s1 where "s1 = (if last (stack s) \<noteq> a \<and> last (stack s) \<noteq> b
                        then s0\<lparr>nodes := upd (last (stack s)) make_closed (nodes s0),
                                visited_nodes_count := visited_nodes_count s0 + 1\<rparr>
                        else s0)"
  obtain cs c where q: "stack s = cs @ [c]" using ne by (cases "stack s" rule: rev_cases) auto
  have e1: "stack s1 = stack s0" "visited s1 = visited s0" by (simp_all add: s1_def)
  have w0: "waiting_inv (stack s1) (visited s1)"
    unfolding e1 using w by (auto simp: waiting_inv_def s0_def q)
  have d0: "done_with (last (stack s)) (stack s1) (visited s1)"
    unfolding e1 using w by (auto simp: waiting_inv_def done_with_def s0_def q)
  have y0: "done_with y (stack s) (visited s) \<Longrightarrow> done_with y (stack s1) (visited s1)"
    unfolding e1 by (auto simp: done_with_def s0_def q)
  have shape: "stack (dfs_step a b s) = stack t \<and> visited (dfs_step a b s) = visited t"
    if "t = (if last (stack s) = b then s1
             else foldl (dfs_visit (last (stack s)) b) s1 (rev (neighbors (nodes s1 (last (stack s))))))" for t
    unfolding that by (simp add: dfs_step_def Let_def s1_def s0_def)
  show "waiting_inv (stack (dfs_step a b s)) (visited (dfs_step a b s))"
    using shape [OF refl] w0 dfs_fold_facts(1) [OF w0] by (auto split: if_splits)
  show "done_with (last (stack s)) (stack (dfs_step a b s)) (visited (dfs_step a b s))"
    using shape [OF refl] d0 dfs_fold_facts(2) [OF w0 d0] by (auto split: if_splits)
  show "done_with y (stack s) (visited s) \<Longrightarrow>
         done_with y (stack (dfs_step a b s)) (visited (dfs_step a b s))"
    using shape [OF refl] y0 dfs_fold_facts(2) [OF w0] by (auto split: if_splits)
qed

lemma no_repeat:
  assumes init: "W s0"
    and stepW: "\<And>s. W s \<Longrightarrow> b s \<Longrightarrow> W (c s)"
    and stepD: "\<And>s. W s \<Longrightarrow> b s \<Longrightarrow> D (p s) (c s)"
    and keepD: "\<And>s y. W s \<Longrightarrow> b s \<Longrightarrow> D y s \<Longrightarrow> D y (c s)"
    and excl: "\<And>s y. W s \<Longrightarrow> b s \<Longrightarrow> D y s \<Longrightarrow> p s \<noteq> y"
    and run: "runs b c s0 (Suc j)" and ij: "i < j"
  shows "p ((c ^^ j) s0) \<noteq> p ((c ^^ i) s0)"
proof -
  have bk: "b ((c ^^ k) s0)" if "k \<le> j" for k
    using run that by (simp add: runs_iff del: runs.simps)
  have wk: "W ((c ^^ k) s0)" if "k \<le> j" for k
    using that
  proof (induction k)
    case 0
    show ?case using init by simp
  next
    case (Suc k)
    then show ?case using stepW [of "(c ^^ k) s0"] bk [of k] by simp
  qed
  have dk: "D (p ((c ^^ i) s0)) ((c ^^ (Suc i + m)) s0)" if "Suc i + m \<le> j" for m
    using that
  proof (induction m)
    case 0
    show ?case using stepD [of "(c ^^ i) s0"] wk [of i] bk [of i] ij by simp
  next
    case (Suc m)
    then show ?case
      using keepD [of "(c ^^ (Suc i + m)) s0" "p ((c ^^ i) s0)"] wk [of "Suc i + m"] bk [of "Suc i + m"]
      by simp
  qed
  from ij have "Suc i + (j - Suc i) = j" by simp
  with dk [of "j - Suc i"] have "D (p ((c ^^ i) s0)) ((c ^^ j) s0)" by simp
  with excl [OF wk [of j] bk [of j]] show ?thesis by simp
qed

lemma bfs_no_repeat:
  assumes "runs bfs_running (bfs_step a b) (bfs_init a st) (Suc j)" "i < j"
  shows "hd (queue ((bfs_step a b ^^ j) (bfs_init a st))) \<noteq>
         hd (queue ((bfs_step a b ^^ i) (bfs_init a st)))"
proof (rule no_repeat [where W = "\<lambda>s. waiting_inv (queue s) (visited s)"
      and D = "\<lambda>y s. done_with y (queue s) (visited s)" and p = "\<lambda>s. hd (queue s)"
      and b = bfs_running and c = "bfs_step a b", OF _ _ _ _ _ assms])
  show "waiting_inv (queue (bfs_init a st)) (visited (bfs_init a st))"
    by (simp add: waiting_inv_def bfs_init_def)
  show "waiting_inv (queue (bfs_step a b s)) (visited (bfs_step a b s))"
    if "waiting_inv (queue s) (visited s)" "bfs_running s" for s
    using that bfs_step_waiting(1) by (simp add: bfs_running_def)
  show "done_with (hd (queue s)) (queue (bfs_step a b s)) (visited (bfs_step a b s))"
    if "waiting_inv (queue s) (visited s)" "bfs_running s" for s
    using that bfs_step_waiting(2) by (simp add: bfs_running_def)
  show "done_with y (queue (bfs_step a b s)) (visited (bfs_step a b s))"
    if "waiting_inv (queue s) (visited s)" "bfs_running s" "done_with y (queue s) (visited s)" for s y
    using that bfs_step_waiting(3) by (simp add: bfs_running_def)
  show "hd (queue s) \<noteq> y"
    if "waiting_inv (queue s) (visited s)" "bfs_running s" "done_with y (queue s) (visited s)" for s y
    using that by (cases "queue s") (auto simp: bfs_running_def done_with_def)
qed

lemma dfs_no_repeat:
  assumes "runs dfs_running (dfs_step a b) (dfs_init a st) (Suc j)" "i < j"
  shows "last (stack ((dfs_step a b ^^ j) (dfs_init a st))) \<noteq>
         last (stack ((dfs_step a b ^^ i) (dfs_init a st)))"
proof (rule no_repeat [where W = "\<lambda>s. waiting_inv (stack s) (visited s)"
      and D = "\<lambda>y s. done_with y (stack s) (visited s)" and p = "\<lambda>s. last (stack s)"
      and b = dfs_running and c = "dfs_step a b", OF _ _ _ _ _ assms])
  show "waiting_inv (stack (dfs_init a st)) (visited (dfs_init a st))"
    by (simp add: waiting_inv_def dfs_init_def)
  show "waiting_inv (stack (dfs_step a b s)) (visited (dfs_step a b s))"
    if "waiting_inv (stack s) (visited s)" "dfs_running s" for s
    using that dfs_step_waiting(1) by (simp add: dfs_running_def)
  show "done_with (last (stack s)) (stack (dfs_step a b s)) (visited (dfs_step a b s))"
    if "waiting_inv (stack s) (visited s)" "dfs_running s" for s
    using that dfs_step_waiting(2) by (simp add: dfs_running_def)
  show "done_with y (stack (dfs_step a b s)) (visited (dfs_step a b s))"
    if "waiting_inv (stack s) (visited s)" "dfs_running s" "done_with y (stack s) (visited s)" for s y
    using that dfs_step_waiting(3) by (simp add: dfs_running_def)
  show "last (stack s) \<noteq> y"
    if "waiting_inv (stack s) (visited s)" "dfs_running s" "done_with y (stack s) (visited s)" for s y
    using that by (cases "stack s" rule: rev_cases) (auto simp: dfs_running_def done_with_def)
qed

text \<open>
  A* as a function on arbitrary neighbour lists can expand a cell twice: on the store
  \<open>detour_store\<close>, whose lists are not those of a grid, the cell \<open>(0, 1)\<close> is popped and
  expanded in iteration 3 and, after its score has improved, again in iteration 5, and it
  is counted both times.  On the lists that the
  neighbour refresh produces this cannot happen, as is proved below.
\<close>

lemma astar_recount_off_grid:
  "map_option snd (astar [] (grid_refs 6) (0, 0) (0, 2) detour_store) = Some (Inr (False, 5, 0)) \<and>
   pq_current ((astar_step (0, 0) (0, 2) ^^ 3) (astar_init (grid_refs 6) (0, 0) (0, 2) detour_store))
     = Some (0, 1) \<and>
   astar_counts (0, 0) (0, 2)
     ((astar_step (0, 0) (0, 2) ^^ 3) (astar_init (grid_refs 6) (0, 0) (0, 2) detour_store)) \<and>
   pq_current ((astar_step (0, 0) (0, 2) ^^ 5) (astar_init (grid_refs 6) (0, 0) (0, 2) detour_store))
     = Some (0, 1) \<and>
   astar_counts (0, 0) (0, 2)
     ((astar_step (0, 0) (0, 2) ^^ 5) (astar_init (grid_refs 6) (0, 0) (0, 2) detour_store))"
  by code_simp

lemma length_counted_cells:
  assumes "\<And>t. (f t \<noteq> None) = P t"
  shows "length (counted_cells f c s k) = expansions P c s k"
  unfolding counted_cells_def List.map_filter_def expansions_def assms by simp

lemma distinct_counted_cells:
  assumes "\<And>i j x. i < j \<Longrightarrow> j < k \<Longrightarrow> f ((c ^^ i) s) = Some x \<Longrightarrow> f ((c ^^ j) s) \<noteq> Some x"
  shows "distinct (counted_cells f c s k)"
proof -
  let ?g = "\<lambda>i. f ((c ^^ i) s)"
  let ?xs = "filter (\<lambda>i. ?g i \<noteq> None) [0..<k]"
  have "inj_on (the \<circ> ?g) (set ?xs)"
  proof (rule inj_onI)
    fix i j
    assume i: "i \<in> set ?xs" and j: "j \<in> set ?xs" and e: "(the \<circ> ?g) i = (the \<circ> ?g) j"
    from i obtain x where x: "?g i = Some x" "i < k" by auto
    from j obtain y where y: "?g j = Some y" "j < k" by auto
    from e x y have xy: "x = y" by simp
    show "i = j"
    proof (rule ccontr)
      assume "i \<noteq> j"
      then consider "i < j" | "j < i" by linarith
      then show False
      proof cases
        case 1
        from assms [OF 1 y(2) x(1)] y(1) xy show False by simp
      next
        case 2
        from assms [OF 2 x(2) y(1)] x(1) xy show False by simp
      qed
    qed
  qed
  then have "distinct (map (the \<circ> ?g) ?xs)" by (simp add: distinct_map)
  then show ?thesis by (simp add: counted_cells_def List.map_filter_def)
qed

lemma no_recount:
  assumes init: "W s0"
    and stepW: "\<And>s. W s \<Longrightarrow> b s \<Longrightarrow> W (c s)"
    and stepD: "\<And>s x. W s \<Longrightarrow> b s \<Longrightarrow> f s = Some x \<Longrightarrow> D x (c s)"
    and keepD: "\<And>s x. W s \<Longrightarrow> b s \<Longrightarrow> D x s \<Longrightarrow> D x (c s)"
    and excl: "\<And>s x. W s \<Longrightarrow> b s \<Longrightarrow> D x s \<Longrightarrow> f s \<noteq> Some x"
    and run: "runs b c s0 k" and ij: "i < j" "j < k" and fi: "f ((c ^^ i) s0) = Some x"
  shows "f ((c ^^ j) s0) \<noteq> Some x"
proof -
  have bk: "b ((c ^^ m) s0)" if "m \<le> j" for m
    using run that ij by (simp add: runs_iff del: runs.simps)
  have wk: "W ((c ^^ m) s0)" if "m \<le> j" for m
    using that
  proof (induction m)
    case 0
    show ?case using init by simp
  next
    case (Suc m)
    then show ?case using stepW [of "(c ^^ m) s0"] bk [of m] by simp
  qed
  have dk: "D x ((c ^^ (Suc i + m)) s0)" if "Suc i + m \<le> j" for m
    using that
  proof (induction m)
    case 0
    show ?case using stepD [of "(c ^^ i) s0" x] wk [of i] bk [of i] ij fi by simp
  next
    case (Suc m)
    then show ?case
      using keepD [of "(c ^^ (Suc i + m)) s0" x] wk [of "Suc i + m"] bk [of "Suc i + m"]
      by simp
  qed
  from ij have "Suc i + (j - Suc i) = j" by simp
  with dk [of "j - Suc i"] have "D x ((c ^^ j) s0)" by simp
  with excl [OF wk [of j] bk [of j]] show ?thesis by simp
qed

lemma bfs_counted_distinct:
  assumes "runs bfs_running (bfs_step a b) (bfs_init a st) k"
  shows "distinct (counted_cells (bfs_counted a b) (bfs_step a b) (bfs_init a st) k)"
proof (rule distinct_counted_cells)
  fix i j x
  assume ij: "i < j" "j < k"
    and i: "bfs_counted a b ((bfs_step a b ^^ i) (bfs_init a st)) = Some x"
  from assms ij have "runs bfs_running (bfs_step a b) (bfs_init a st) (Suc j)"
    by (simp add: runs_iff del: runs.simps)
  from bfs_no_repeat [OF this ij(1)] i
  show "bfs_counted a b ((bfs_step a b ^^ j) (bfs_init a st)) \<noteq> Some x"
    by (auto simp: bfs_counted_def split: if_splits)
qed

lemma dfs_counted_distinct:
  assumes "runs dfs_running (dfs_step a b) (dfs_init a st) k"
  shows "distinct (counted_cells (dfs_counted a b) (dfs_step a b) (dfs_init a st) k)"
proof (rule distinct_counted_cells)
  fix i j x
  assume ij: "i < j" "j < k"
    and i: "dfs_counted a b ((dfs_step a b ^^ i) (dfs_init a st)) = Some x"
  from assms ij have "runs dfs_running (dfs_step a b) (dfs_init a st) (Suc j)"
    by (simp add: runs_iff del: runs.simps)
  from dfs_no_repeat [OF this ij(1)] i
  show "dfs_counted a b ((dfs_step a b ^^ j) (dfs_init a st)) \<noteq> Some x"
    by (auto simp: dfs_counted_def split: if_splits)
qed

lemma score_not_improved:
  fixes gu gc :: enat
  assumes "gu + 1 < gc" "gc + enat hc \<le> gu + enat hu" "hu \<le> hc + 1"
  shows False
  using assms by (cases gu; cases gc) (auto simp: one_enat_def)

lemma pushed_key_bound:
  fixes gu gc :: enat
  assumes "gc + enat hc \<le> gu + enat hu" "hu \<le> hn + 1"
  shows "gc + enat hc \<le> gu + 1 + enat hn"
  using assms by (cases gu; cases gc) (auto simp: one_enat_def)

lemma least_key:
  assumes "heappop hp = Some ((k, tb, cur), rest)" "e \<in> set hp"
  shows "k \<le> fst e"
  using heappop_least(2) [OF assms(1)] assms(2) by (fastforce simp: entry_less_def)

lemma pending_rest:
  assumes "heappop hp = Some ((k, tb, cur), rest)"
  shows "set rest \<subseteq> set hp" "(k, tb, cur) \<in> set hp" "cur \<in> set (pending hp)"
    "set (pending rest) \<subseteq> set (pending hp)"
    "distinct (pending hp) \<Longrightarrow> cur \<notin> set (pending rest)"
proof -
  from heappop_Some [OF assms] have m: "(k, tb, cur) \<in> set hp"
    and r: "rest = remove1 (k, tb, cur) hp" by simp_all
  show "set rest \<subseteq> set hp" unfolding r by (rule set_remove1_subset)
  then show "set (pending rest) \<subseteq> set (pending hp)" by (auto simp: pending_def)
  show "(k, tb, cur) \<in> set hp" by (rule m)
  then show "cur \<in> set (pending hp)" by (force simp: pending_def)
  assume "distinct (pending hp)"
  with set_map_remove1 [of "\<lambda>e. snd (snd e)" hp "(k, tb, cur)"] m
  show "cur \<notin> set (pending rest)" unfolding r pending_def by simp
qed

lemma closed_cell_fields:
  "closed_cell hh c (s\<lparr>raised := e\<rparr>) = closed_cell hh c s"
  "closed_cell hh c (s\<lparr>reached := t\<rparr>) = closed_cell hh c s"
  "closed_cell hh c (s\<lparr>nodes := n, visited_nodes_count := v\<rparr>) = closed_cell hh c s"
  by (simp_all add: closed_cell_def)

lemma relax_inv_closed: "relax_inv hh c u gu s \<Longrightarrow> closed_cell hh c s"
  by (auto simp: relax_inv_def closed_cell_def)

lemma closed_cell_rest:
  assumes "closed_cell hh c s" "set rest \<subseteq> set (open_set s)"
  shows "closed_cell hh c (s\<lparr>open_set := rest, open_set_hash := hs\<rparr>)"
    "closed_cell hh c (s\<lparr>open_set := rest\<rparr>)"
  using assms by (auto simp: closed_cell_def pending_def)

lemma dijkstra_relax_closed:
  assumes "relax_inv (\<lambda>_. 0) c u gu s"
  shows "relax_inv (\<lambda>_. 0) c u gu (dijkstra_relax u b s n)"
proof -
  from assms obtain gc where gu: "g_score s u = Some gu" and np: "c \<notin> set (pending (open_set s))"
    and gc: "g_score s c = Some gc" and le: "gc + enat 0 \<le> gu + enat 0"
    and ks: "\<forall>e \<in> set (open_set s). gc + enat 0 \<le> fst e"
    by (auto simp: relax_inv_def)
  show ?thesis
  proof (cases "g_score s n")
    case None
    with assms show ?thesis by (simp add: relax_inv_def dijkstra_relax_def gu)
  next
    case (Some gn)
    show ?thesis
    proof (cases "gu + 1 < gn")
      case False
      with assms Some show ?thesis by (simp add: relax_inv_def dijkstra_relax_def gu)
    next
      case True
      have nu: "n \<noteq> u" using True Some gu by auto
      have nc: "n \<noteq> c"
      proof
        assume "n = c"
        with True Some gc have "gu + 1 < gc" by simp
        from score_not_improved [OF this le] show False by simp
      qed
      have key: "gc + enat 0 \<le> gu + 1 + enat 0"
        by (rule pushed_key_bound [OF le]) simp
      show ?thesis
        using gu np gc le ks nu nc key Some True
        by (auto simp: relax_inv_def dijkstra_relax_def Let_def heappush_def pending_def
            zero_enat_def [symmetric])
    qed
  qed
qed

lemma dijkstra_relax_keys:
  assumes "keys_ok (g_score s) (open_set s)"
  shows "keys_ok (g_score (dijkstra_relax u b s n)) (open_set (dijkstra_relax u b s n))"
proof (cases "g_score s u")
  case None
  with assms show ?thesis by (simp add: dijkstra_relax_def)
next
  case gu: (Some gu)
  show ?thesis
  proof (cases "g_score s n")
    case None
    with assms show ?thesis by (simp add: dijkstra_relax_def gu)
  next
    case (Some gn)
    show ?thesis
    proof (cases "gu + 1 < gn")
      case False
      with assms Some show ?thesis by (simp add: dijkstra_relax_def gu)
    next
      case True
      have old: "\<exists>v. ((g_score s)(n \<mapsto> gu + 1)) (snd (snd e)) = Some v \<and> v \<le> fst e"
        if "e \<in> set (open_set s)" for e
      proof (cases "snd (snd e) = n")
        case True
        from assms that obtain v where "g_score s (snd (snd e)) = Some v" "v \<le> fst e"
          by (auto simp: keys_ok_def)
        with True Some \<open>gu + 1 < gn\<close> show ?thesis by auto
      next
        case False
        with assms that show ?thesis by (auto simp: keys_ok_def)
      qed
      show ?thesis
      proof (cases "raised s \<noteq> None \<or> is_barrier (nodes s n)")
        case True
        with assms show ?thesis by (auto simp: dijkstra_relax_def)
      next
        case False
        with old Some \<open>gu + 1 < gn\<close> gu show ?thesis
          by (auto simp: keys_ok_def dijkstra_relax_def Let_def heappush_def)
      qed
    qed
  qed
qed

lemma keys_ok_rest: "keys_ok sc hp \<Longrightarrow> set rest \<subseteq> set hp \<Longrightarrow> keys_ok sc rest"
  by (auto simp: keys_ok_def)

lemma dijkstra_step_W:
  assumes "dijkstra_W s" "pq_running s"
  shows "dijkstra_W (dijkstra_step a b s)"
proof -
  from assms have hi: "heap_inv s" and ko: "keys_ok (g_score s) (open_set s)"
    and r: "raised s = None" by (simp_all add: dijkstra_W_def pq_running_def)
  have h: "heap_inv (dijkstra_step a b s)" by (rule dijkstra_step_heap_inv [OF hi r])
  have "keys_ok (g_score (dijkstra_step a b s)) (open_set (dijkstra_step a b s))"
  proof (cases "heappop (open_set s)")
    case None
    with ko show ?thesis by (simp add: dijkstra_step_def)
  next
    case (Some p)
    obtain k tb cur rest where p: "p = ((k, tb, cur), rest)" by (cases p) auto
    note hp = Some [unfolded p]
    have k1: "keys_ok (g_score s) rest" by (rule keys_ok_rest [OF ko pending_rest(1) [OF hp]])
    show ?thesis
    proof (cases "cur \<in> open_set_hash s")
      case False
      with k1 show ?thesis by (simp add: dijkstra_step_def hp)
    next
      case True
      define s1 where "s1 = s\<lparr>open_set := rest, open_set_hash := open_set_hash s - {cur}\<rparr>"
      define s2 where "s2 = foldl (dijkstra_relax cur b) s1 (neighbors (nodes s1 cur))"
      have i1: "keys_ok (g_score s1) (open_set s1)" using k1 by (simp add: s1_def)
      have i2: "keys_ok (g_score s2) (open_set s2)" unfolding s2_def
        by (rule foldl_inv [where P = "\<lambda>t. keys_ok (g_score t) (open_set t)", OF i1])
           (rule dijkstra_relax_keys)
      show ?thesis
        unfolding dijkstra_step_shape [OF hp True s1_def s2_def]
        using i1 i2 by (simp split: option.splits)
    qed
  qed
  with h show ?thesis by (simp add: dijkstra_W_def)
qed

lemma dijkstra_step_closes:
  assumes "dijkstra_W s" "pq_running s" "dijkstra_counted a b s = Some x"
  shows "closed_cell (\<lambda>_. 0) x (dijkstra_step a b s)"
proof -
  from assms have hi: "heap_inv s" and ko: "keys_ok (g_score s) (open_set s)"
    and r: "raised s = None" by (simp_all add: dijkstra_W_def pq_running_def)
  from assms(3) have cn: "dijkstra_counts a b s" and px: "pq_current s = Some x"
    by (auto simp: dijkstra_counted_def split: if_splits)
  from px obtain p where Some: "heappop (open_set s) = Some p"
    by (auto simp: pq_current_def)
  obtain k tb cur rest where p: "p = ((k, tb, cur), rest)" by (cases p) auto
  note hp = Some [unfolded p]
  from px hp have x: "x = cur" by (simp add: pq_current_def)
  from cn hp obtain g where True: "cur \<in> open_set_hash s" and g: "g_score s cur = Some g"
    and kg: "\<not> k > g" and nb: "cur \<noteq> b" and na: "cur \<noteq> a"
    by (auto simp: dijkstra_counts_def split: option.splits)
  define s1 where "s1 = s\<lparr>open_set := rest, open_set_hash := open_set_hash s - {cur}\<rparr>"
  define s2 where "s2 = foldl (dijkstra_relax cur b) s1 (neighbors (nodes s1 cur))"
  from ko pending_rest(2) [OF hp] g have "g \<le> k" by (fastforce simp: keys_ok_def)
  with kg have kg': "k = g" by simp
  have d: "distinct (pending (open_set s))" using hi r by (simp add: heap_inv_def)
  have ks: "\<forall>e \<in> set rest. g + enat 0 \<le> fst e"
    using least_key [OF hp] pending_rest(1) [OF hp] kg'
    by (auto simp: zero_enat_def [symmetric])
  have i1: "relax_inv (\<lambda>_. 0) cur cur g s1"
    using g pending_rest(5) [OF hp d] ks by (simp add: relax_inv_def s1_def)
  have i2: "relax_inv (\<lambda>_. 0) cur cur g s2" unfolding s2_def
    by (rule foldl_inv [where P = "relax_inv (\<lambda>_. 0) cur cur g", OF i1])
       (rule dijkstra_relax_closed)
  show ?thesis
    unfolding x dijkstra_step_shape [OF hp True s1_def s2_def]
    using relax_inv_closed [OF i2] g kg nb na by (simp add: closed_cell_fields)
qed

lemma dijkstra_step_keeps_closed:
  assumes "dijkstra_W s" "pq_running s" "closed_cell (\<lambda>_. 0) c s"
  shows "closed_cell (\<lambda>_. 0) c (dijkstra_step a b s)"
proof (cases "heappop (open_set s)")
  case None
  with assms(3) show ?thesis by (simp add: dijkstra_step_def closed_cell_fields)
next
  case (Some p)
  obtain k tb cur rest where p: "p = ((k, tb, cur), rest)" by (cases p) auto
  note hp = Some [unfolded p]
  note sub = pending_rest(1) [OF hp]
  show ?thesis
  proof (cases "cur \<in> open_set_hash s")
    case False
    with closed_cell_rest(2) [OF assms(3) sub] show ?thesis
      by (simp add: dijkstra_step_def hp closed_cell_fields)
  next
    case True
    define s1 where "s1 = s\<lparr>open_set := rest, open_set_hash := open_set_hash s - {cur}\<rparr>"
    define s2 where "s2 = foldl (dijkstra_relax cur b) s1 (neighbors (nodes s1 cur))"
    have c1: "closed_cell (\<lambda>_. 0) c s1"
      unfolding s1_def by (rule closed_cell_rest(1) [OF assms(3) sub])
    have c2: "closed_cell (\<lambda>_. 0) c s2" if g: "g_score s cur = Some g" and kg: "\<not> k > g" for g
    proof -
      from assms(3) obtain gc where gc: "g_score s c = Some gc"
        and ks: "\<forall>e \<in> set (open_set s). gc + enat 0 \<le> fst e"
        and np: "c \<notin> set (pending (open_set s))"
        by (auto simp: closed_cell_def)
      from ks pending_rest(2) [OF hp] have "gc + enat 0 \<le> k" by fastforce
      with kg have le: "gc + enat 0 \<le> g + enat 0" by (simp add: zero_enat_def [symmetric])
      have i1: "relax_inv (\<lambda>_. 0) c cur g s1"
        using g gc le ks np sub pending_rest(4) [OF hp]
        by (auto simp: relax_inv_def s1_def)
      have "relax_inv (\<lambda>_. 0) c cur g s2" unfolding s2_def
        by (rule foldl_inv [where P = "relax_inv (\<lambda>_. 0) c cur g", OF i1])
           (rule dijkstra_relax_closed)
      then show ?thesis by (rule relax_inv_closed)
    qed
    show ?thesis
      unfolding dijkstra_step_shape [OF hp True s1_def s2_def]
      using c1 c2 by (simp add: closed_cell_fields split: option.splits)
  qed
qed

lemma closed_cell_not_current:
  assumes "closed_cell hh c s"
  shows "pq_current s \<noteq> Some c"
proof
  assume "pq_current s = Some c"
  then obtain p where Some: "heappop (open_set s) = Some p" and c: "c = snd (snd (fst p))"
    by (auto simp: pq_current_def)
  obtain k tb cur rest where p: "p = ((k, tb, cur), rest)" by (cases p) auto
  from pending_rest(3) [OF Some [unfolded p]] c p assms show False
    by (simp add: closed_cell_def)
qed

lemma dijkstra_counted_distinct:
  assumes "runs pq_running (dijkstra_step a b) (dijkstra_init grid a st) k"
  shows "distinct (counted_cells (dijkstra_counted a b) (dijkstra_step a b) (dijkstra_init grid a st) k)"
proof (rule distinct_counted_cells)
  fix i j x
  assume ij: "i < j" "j < k"
    and i: "dijkstra_counted a b ((dijkstra_step a b ^^ i) (dijkstra_init grid a st)) = Some x"
  show "dijkstra_counted a b ((dijkstra_step a b ^^ j) (dijkstra_init grid a st)) \<noteq> Some x"
  proof (rule no_recount [where W = dijkstra_W and D = "closed_cell (\<lambda>_. 0)"
        and b = pq_running and c = "dijkstra_step a b" and f = "dijkstra_counted a b",
        OF _ _ _ _ _ assms ij i])
    show "dijkstra_W (dijkstra_init grid a st)"
      by (simp add: dijkstra_W_def heap_inv_def keys_ok_def dijkstra_init_def seq_numbers_def
          pending_def)
    show "dijkstra_W (dijkstra_step a b s)" if "dijkstra_W s" "pq_running s" for s
      using that by (rule dijkstra_step_W)
    show "closed_cell (\<lambda>_. 0) y (dijkstra_step a b s)"
      if "dijkstra_W s" "pq_running s" "dijkstra_counted a b s = Some y" for s y
      using that by (rule dijkstra_step_closes)
    show "closed_cell (\<lambda>_. 0) y (dijkstra_step a b s)"
      if "dijkstra_W s" "pq_running s" "closed_cell (\<lambda>_. 0) y s" for s y
      using that by (rule dijkstra_step_keeps_closed)
    show "dijkstra_counted a b s \<noteq> Some y"
      if "dijkstra_W s" "pq_running s" "closed_cell (\<lambda>_. 0) y s" for s y
      using closed_cell_not_current [OF that(3)] by (simp add: dijkstra_counted_def)
  qed
qed

lemma same_cellsD:
  assumes "same_cells st st'"
  shows "get_pos (st' r) = get_pos (st r)" "neighbors (st' r) = neighbors (st r)"
  using assms unfolding same_cells_def by blast+

lemma astar_J_D:
  assumes "astar_J st a b R s"
  shows "same_cells st (nodes s)" "set (pending (open_set s)) \<subseteq> R"
    "e \<in> set (open_set s) \<Longrightarrow> snd (snd e) \<noteq> a \<Longrightarrow>
       \<exists>v. f_score s (snd (snd e)) = Some v \<and> v \<le> fst e"
    "f_score s n = Some v \<Longrightarrow> \<exists>g. g_score s n = Some g \<and> v = g + enat (hval st b n)"
  using assms unfolding astar_J_def by blast+

lemma same_cells_tag:
  assumes "same_cells st st'"
  shows "same_cells st (upd r make_open st')" "same_cells st (upd r make_closed st')"
  unfolding same_cells_def upd_def make_open_def make_closed_def
  using same_cellsD [OF assms] by (auto simp: get_pos_def)

lemma h_score_same:
  "same_cells st st' \<Longrightarrow> h_score st' n b = enat (hval st b n)"
  by (simp add: same_cellsD h_score_def hval_def)

lemma astar_J_fields:
  "astar_J st a b R (s\<lparr>raised := e\<rparr>) = astar_J st a b R s"
  "astar_J st a b R (s\<lparr>reached := t\<rparr>) = astar_J st a b R s"
  by (simp_all add: astar_J_def)

lemma astar_J_closed:
  "astar_J st a b R s \<Longrightarrow>
   astar_J st a b R (s\<lparr>nodes := upd c make_closed (nodes s), visited_nodes_count := v\<rparr>)"
  by (simp add: astar_J_def same_cells_tag)

lemma astar_J_rest:
  assumes "astar_J st a b R s" "set rest \<subseteq> set (open_set s)"
  shows "astar_J st a b R (s\<lparr>open_set := rest, open_set_hash := hs\<rparr>)"
    "astar_J st a b R (s\<lparr>open_set := rest\<rparr>)"
  using assms by (auto simp: astar_J_def pending_def)

lemma add_mono_enat:
  fixes x y :: enat
  shows "x < y \<Longrightarrow> x + enat k \<le> y + enat k"
  by (cases x; cases y) auto

lemma astar_relax_J:
  assumes J: "astar_J st a b R s" and n: "n \<in> R"
  shows "astar_J st a b R (astar_relax u b s n)"
proof (cases "raised s \<noteq> None \<or> is_barrier (nodes s n)")
  case True
  with J show ?thesis by (auto simp: astar_relax_def)
next
  case nr: False
  from J have sc: "same_cells st (nodes s)" and pr: "set (pending (open_set s)) \<subseteq> R"
    and ks: "\<forall>e \<in> set (open_set s). snd (snd e) \<noteq> a \<longrightarrow>
               (\<exists>v. f_score s (snd (snd e)) = Some v \<and> v \<le> fst e)"
    and fg: "\<forall>n v. f_score s n = Some v \<longrightarrow> (\<exists>g. g_score s n = Some g \<and> v = g + enat (hval st b n))"
    unfolding astar_J_def by blast+
  note hs = h_score_same [OF sc]
  show ?thesis
  proof (cases "g_score s u")
    case None
    with J nr show ?thesis by (simp add: astar_relax_def astar_J_fields)
  next
    case gu: (Some gu)
    show ?thesis
    proof (cases "g_score s n")
      case None
      with J nr gu show ?thesis by (simp add: astar_relax_def astar_J_fields)
    next
      case (Some gn)
      show ?thesis
      proof (cases "gu + 1 < gn")
        case False
        with J nr gu Some show ?thesis by (simp add: astar_relax_def)
      next
        case True
        let ?fn = "gu + 1 + enat (hval st b n)"
        let ?F = "(f_score s)(n \<mapsto> ?fn)"
        let ?G = "(g_score s)(n \<mapsto> gu + 1)"
        have ks': "\<exists>v. ?F (snd (snd e)) = Some v \<and> v \<le> fst e"
          if "e \<in> set (open_set s)" "snd (snd e) \<noteq> a" for e
        proof (cases "snd (snd e) = n")
          case False
          with ks that show ?thesis by auto
        next
          case en: True
          from ks that obtain v where v: "f_score s (snd (snd e)) = Some v" "v \<le> fst e" by blast
          from fg [rule_format, OF v(1)] en Some have "v = gn + enat (hval st b n)" by auto
          with add_mono_enat [OF True, of "hval st b n"] v(2) have "?fn \<le> fst e"
            by (metis order_trans)
          with en show ?thesis by simp
        qed
        have fg': "\<exists>g. ?G m = Some g \<and> v = g + enat (hval st b m)" if "?F m = Some v" for m v
          using that fg [rule_format, of m v] by (cases "m = n") auto
        have J1: "astar_J st a b R
            (s\<lparr>came_from := (came_from s)(n \<mapsto> u), g_score := ?G, f_score := ?F\<rparr>)"
          unfolding astar_J_def using sc pr ks' fg' by simp
        have J2: "astar_J st a b R
            (s\<lparr>came_from := (came_from s)(n \<mapsto> u), g_score := ?G, f_score := ?F,
               count := count s + 1,
               open_set := open_set s @ [(?fn, count s + 1, n)],
               open_set_hash := insert n (open_set_hash s),
               nodes := nd\<rparr>)" if "same_cells st nd" for nd
          unfolding astar_J_def using that pr ks' fg' n by (auto simp: pending_def)
        show ?thesis
          using nr gu Some True J1 J2 [OF same_cells_tag(1) [OF sc, of n]] J2 [OF sc]
          by (auto simp add: astar_relax_def Let_def heappush_def hs)
      qed
    qed
  qed
qed

lemma astar_relax_closed:
  assumes "relax_inv (hval st b) c u gu s" and sc: "same_cells st (nodes s)"
    and cons: "hval st b u \<le> hval st b n + 1"
  shows "relax_inv (hval st b) c u gu (astar_relax u b s n)"
proof -
  from assms obtain gc where gu: "g_score s u = Some gu" and np: "c \<notin> set (pending (open_set s))"
    and gc: "g_score s c = Some gc" and le: "gc + enat (hval st b c) \<le> gu + enat (hval st b u)"
    and ks: "\<forall>e \<in> set (open_set s). gc + enat (hval st b c) \<le> fst e"
    by (auto simp: relax_inv_def)
  note hs = h_score_same [OF sc]
  show ?thesis
  proof (cases "g_score s n")
    case None
    with assms show ?thesis by (simp add: relax_inv_def astar_relax_def gu)
  next
    case (Some gn)
    show ?thesis
    proof (cases "gu + 1 < gn")
      case False
      with assms Some show ?thesis by (simp add: relax_inv_def astar_relax_def gu)
    next
      case True
      have nu: "n \<noteq> u" using True Some gu by auto
      have nc: "n \<noteq> c"
      proof
        assume e: "n = c"
        with True Some gc have "gu + 1 < gc" by simp
        from score_not_improved [OF this le] cons e show False by simp
      qed
      have key: "gc + enat (hval st b c) \<le> gu + 1 + enat (hval st b n)"
        by (rule pushed_key_bound [OF le cons])
      show ?thesis
        using gu np gc le ks nu nc key Some True
        by (auto simp: relax_inv_def astar_relax_def Let_def heappush_def pending_def hs)
    qed
  qed
qed

lemma astar_relax_same:
  "same_cells st (nodes s) \<Longrightarrow> same_cells st (nodes (astar_relax u b s n))"
  by (auto simp: astar_relax_def Let_def same_cells_tag split: option.splits)

lemma astar_fold_J:
  assumes "astar_J st a b R s" "set xs \<subseteq> R"
  shows "astar_J st a b R (foldl (astar_relax u b) s xs)"
proof (rule foldl_inv [where P = "astar_J st a b R", OF assms(1)])
  fix t x
  assume "x \<in> set xs" "astar_J st a b R t"
  with assms(2) show "astar_J st a b R (astar_relax u b t x)"
    by (intro astar_relax_J) auto
qed

lemma astar_fold_closed:
  assumes "relax_inv (hval st b) c u gu s" "same_cells st (nodes s)"
    and "\<forall>n \<in> set xs. hval st b u \<le> hval st b n + 1"
  shows "relax_inv (hval st b) c u gu (foldl (astar_relax u b) s xs)"
proof -
  have "relax_inv (hval st b) c u gu (foldl (astar_relax u b) s xs) \<and>
        same_cells st (nodes (foldl (astar_relax u b) s xs))"
  proof (rule foldl_inv [where P = "\<lambda>t::astar_state. relax_inv (hval st b) c u gu t \<and> same_cells st (nodes t)"])
    show "relax_inv (hval st b) c u gu s \<and> same_cells st (nodes s)" using assms by simp
    fix t :: astar_state and x
    assume x: "x \<in> set xs" and t: "relax_inv (hval st b) c u gu t \<and> same_cells st (nodes t)"
    from assms(3) x have "hval st b u \<le> hval st b x + 1" by simp
    with t show "relax_inv (hval st b) c u gu (astar_relax u b t x) \<and>
                 same_cells st (nodes (astar_relax u b t x))"
      by (simp add: astar_relax_closed astar_relax_same)
  qed
  then show ?thesis by simp
qed

lemma astar_step_W:
  assumes W: "astar_W st a b R s" and run: "pq_running s" and cons: "consistent_on R st b"
  shows "astar_W st a b R (astar_step a b s)"
proof -
  from W run have hi: "heap_inv s" and J: "astar_J st a b R s"
    and r: "raised s = None" by (simp_all add: astar_W_def pq_running_def)
  have h: "heap_inv (astar_step a b s)" by (rule astar_step_heap_inv [OF hi r])
  have "astar_J st a b R (astar_step a b s)"
  proof (cases "heappop (open_set s)")
    case None
    with J show ?thesis by (simp add: astar_step_def astar_J_fields)
  next
    case (Some p)
    obtain k tb cur rest where p: "p = ((k, tb, cur), rest)" by (cases p) auto
    note hp = Some [unfolded p]
    note sub = pending_rest(1) [OF hp]
    show ?thesis
    proof (cases "cur \<in> open_set_hash s")
      case False
      with astar_J_rest(2) [OF J sub] show ?thesis
        by (simp add: astar_step_def hp astar_J_fields)
    next
      case True
      define s1 where "s1 = s\<lparr>open_set := rest, open_set_hash := open_set_hash s - {cur}\<rparr>"
      define s2 where "s2 = foldl (astar_relax cur b) s1 (neighbors (nodes s1 cur))"
      have i1: "astar_J st a b R s1" unfolding s1_def by (rule astar_J_rest(1) [OF J sub])
      from astar_J_D(2) [OF J] pending_rest(3) [OF hp] have cr: "cur \<in> R" by auto
      from same_cellsD(2) [OF astar_J_D(1) [OF J]]
      have "neighbors (nodes s1 cur) = neighbors (st cur)" by (simp add: s1_def)
      with cons cr have "set (neighbors (nodes s1 cur)) \<subseteq> R"
        by (auto simp: consistent_on_def)
      then have i2: "astar_J st a b R s2" unfolding s2_def by (rule astar_fold_J [OF i1])
      note shape = astar_step_shape [OF hp True s1_def s2_def, of a]
      show ?thesis
      proof (cases "f_score s cur")
        case None
        then have e: "astar_step a b s = s1\<lparr>raised := Some KeyError\<rparr>"
          unfolding shape by simp
        show ?thesis unfolding e by (simp add: astar_J_fields i1)
      next
        case (Some f)
        consider "k > f" | "\<not> k > f" "cur = b" | "\<not> k > f" "cur \<noteq> b" "raised s2 \<noteq> None"
          | "\<not> k > f" "cur \<noteq> b" "raised s2 = None" "cur \<noteq> a"
          | "\<not> k > f" "cur \<noteq> b" "raised s2 = None" "cur = a" by blast
        then show ?thesis
        proof cases
          case 1
          with Some have e: "astar_step a b s = s1" unfolding shape by simp
          show ?thesis unfolding e by (rule i1)
        next
          case 2
          with Some have e: "astar_step a b s = s1\<lparr>reached := True\<rparr>" unfolding shape by simp
          show ?thesis unfolding e by (simp add: astar_J_fields i1)
        next
          case 3
          with Some have e: "astar_step a b s = s2" unfolding shape by auto
          show ?thesis unfolding e by (rule i2)
        next
          case 4
          with Some have e: "astar_step a b s =
              s2\<lparr>nodes := upd cur make_closed (nodes s2),
                 visited_nodes_count := visited_nodes_count s2 + 1\<rparr>"
            unfolding shape by simp
          show ?thesis unfolding e by (rule astar_J_closed [OF i2])
        next
          case 5
          with Some have e: "astar_step a b s = s2" unfolding shape by simp
          show ?thesis unfolding e by (rule i2)
        qed
      qed
    qed
  qed
  with h show ?thesis by (simp add: astar_W_def)
qed

lemma astar_step_closes:
  assumes W: "astar_W st a b R s" and run: "pq_running s" and cons: "consistent_on R st b"
    and cnt: "astar_counted a b s = Some x"
  shows "closed_cell (hval st b) x (astar_step a b s)"
proof -
  from W run have hi: "heap_inv s" and J: "astar_J st a b R s"
    and r: "raised s = None" by (simp_all add: astar_W_def pq_running_def)
  from cnt have cn: "astar_counts a b s" and px: "pq_current s = Some x"
    by (auto simp: astar_counted_def split: if_splits)
  from px obtain p where Some: "heappop (open_set s) = Some p"
    by (auto simp: pq_current_def)
  obtain k tb cur rest where p: "p = ((k, tb, cur), rest)" by (cases p) auto
  note hp = Some [unfolded p]
  from px hp have x: "x = cur" by (simp add: pq_current_def)
  from cn hp obtain f where True: "cur \<in> open_set_hash s" and f: "f_score s cur = Some f"
    and kf: "\<not> k > f" and nb: "cur \<noteq> b" and na: "cur \<noteq> a"
    by (auto simp: astar_counts_def split: option.splits)
  define s1 where "s1 = s\<lparr>open_set := rest, open_set_hash := open_set_hash s - {cur}\<rparr>"
  define s2 where "s2 = foldl (astar_relax cur b) s1 (neighbors (nodes s1 cur))"
  from astar_J_D(3) [OF J pending_rest(2) [OF hp]] na f have "f \<le> k" by auto
  with kf have kf': "k = f" by simp
  from astar_J_D(4) [OF J f] obtain g where g: "g_score s cur = Some g" and fg: "f = g + enat (hval st b cur)"
    by blast
  have d: "distinct (pending (open_set s))" using hi r by (simp add: heap_inv_def)
  have ks: "\<forall>e \<in> set rest. g + enat (hval st b cur) \<le> fst e"
    using least_key [OF hp] pending_rest(1) [OF hp] kf' fg by auto
  have i1: "relax_inv (hval st b) cur cur g s1"
    using g pending_rest(5) [OF hp d] ks by (simp add: relax_inv_def s1_def)
  from astar_J_D(1) [OF J] have sc: "same_cells st (nodes s1)" by (simp add: s1_def)
  from astar_J_D(2) [OF J] pending_rest(3) [OF hp] have cr: "cur \<in> R" by auto
  from sc have "neighbors (nodes s1 cur) = neighbors (st cur)" by (rule same_cellsD)
  with cons cr have nh: "\<forall>n \<in> set (neighbors (nodes s1 cur)). hval st b cur \<le> hval st b n + 1"
    by (auto simp: consistent_on_def)
  have i2: "relax_inv (hval st b) cur cur g s2" unfolding s2_def
    by (rule astar_fold_closed [OF i1 sc nh])
  show ?thesis
    unfolding x astar_step_shape [OF hp True s1_def s2_def]
    using relax_inv_closed [OF i2] f kf nb na by (simp add: closed_cell_fields)
qed

lemma astar_step_keeps_closed:
  assumes W: "astar_W st a b R s" and run: "pq_running s" and cons: "consistent_on R st b"
    and cl: "closed_cell (hval st b) c s"
  shows "closed_cell (hval st b) c (astar_step a b s)"
proof (cases "heappop (open_set s)")
  case None
  with cl show ?thesis by (simp add: astar_step_def closed_cell_fields)
next
  case (Some p)
  obtain k tb cur rest where p: "p = ((k, tb, cur), rest)" by (cases p) auto
  note hp = Some [unfolded p]
  note sub = pending_rest(1) [OF hp]
  from W have J: "astar_J st a b R s" by (simp add: astar_W_def)
  show ?thesis
  proof (cases "cur \<in> open_set_hash s")
    case False
    with closed_cell_rest(2) [OF cl sub] show ?thesis
      by (simp add: astar_step_def hp closed_cell_fields)
  next
    case True
    define s1 where "s1 = s\<lparr>open_set := rest, open_set_hash := open_set_hash s - {cur}\<rparr>"
    define s2 where "s2 = foldl (astar_relax cur b) s1 (neighbors (nodes s1 cur))"
    have c1: "closed_cell (hval st b) c s1"
      unfolding s1_def by (rule closed_cell_rest(1) [OF cl sub])
    have c2: "closed_cell (hval st b) c s2" if f: "f_score s cur = Some f" and kf: "\<not> k > f" for f
    proof -
      from cl obtain gc where gc: "g_score s c = Some gc"
        and ks: "\<forall>e \<in> set (open_set s). gc + enat (hval st b c) \<le> fst e"
        and np: "c \<notin> set (pending (open_set s))"
        by (auto simp: closed_cell_def)
      from astar_J_D(4) [OF J f] obtain g where g: "g_score s cur = Some g" and fg: "f = g + enat (hval st b cur)"
        by blast
      from ks pending_rest(2) [OF hp] have "gc + enat (hval st b c) \<le> k" by fastforce
      with kf fg have le: "gc + enat (hval st b c) \<le> g + enat (hval st b cur)" by simp
      have i1: "relax_inv (hval st b) c cur g s1"
        using g gc le ks np sub pending_rest(4) [OF hp]
        by (auto simp: relax_inv_def s1_def)
      from astar_J_D(1) [OF J] have sc: "same_cells st (nodes s1)" by (simp add: s1_def)
      from astar_J_D(2) [OF J] pending_rest(3) [OF hp] have cr: "cur \<in> R" by auto
      from sc have "neighbors (nodes s1 cur) = neighbors (st cur)" by (rule same_cellsD)
      with cons cr have nh: "\<forall>n \<in> set (neighbors (nodes s1 cur)). hval st b cur \<le> hval st b n + 1"
        by (auto simp: consistent_on_def)
      have "relax_inv (hval st b) c cur g s2" unfolding s2_def
        by (rule astar_fold_closed [OF i1 sc nh])
      then show ?thesis by (rule relax_inv_closed)
    qed
    show ?thesis
      unfolding astar_step_shape [OF hp True s1_def s2_def]
      using c1 c2 by (simp add: closed_cell_fields split: option.splits)
  qed
qed

lemma astar_init_W:
  assumes "a \<in> R"
  shows "astar_W st a b R (astar_init grid a b st)"
  using assms
  by (auto simp: astar_W_def astar_J_def heap_inv_def astar_init_def seq_numbers_def pending_def
      same_cells_def h_score_def hval_def inf_scores_def split: if_splits)

lemma astar_counted_distinct:
  assumes run: "runs pq_running (astar_step a b) (astar_init grid a b st) k"
    and cons: "consistent_on R st b" and a: "a \<in> R"
  shows "distinct (counted_cells (astar_counted a b) (astar_step a b) (astar_init grid a b st) k)"
proof (rule distinct_counted_cells)
  fix i j x
  assume ij: "i < j" "j < k"
    and i: "astar_counted a b ((astar_step a b ^^ i) (astar_init grid a b st)) = Some x"
  show "astar_counted a b ((astar_step a b ^^ j) (astar_init grid a b st)) \<noteq> Some x"
  proof (rule no_recount [where W = "astar_W st a b R" and D = "closed_cell (hval st b)"
        and b = pq_running and c = "astar_step a b" and f = "astar_counted a b",
        OF _ _ _ _ _ run ij i])
    show "astar_W st a b R (astar_init grid a b st)" by (rule astar_init_W [OF a])
    show "astar_W st a b R (astar_step a b s)" if "astar_W st a b R s" "pq_running s" for s
      using that cons by (rule astar_step_W)
    show "closed_cell (hval st b) y (astar_step a b s)"
      if "astar_W st a b R s" "pq_running s" "astar_counted a b s = Some y" for s y
      using that(1,2) cons that(3) by (rule astar_step_closes)
    show "closed_cell (hval st b) y (astar_step a b s)"
      if "astar_W st a b R s" "pq_running s" "closed_cell (hval st b) y s" for s y
      using that(1,2) cons that(3) by (rule astar_step_keeps_closed)
    show "astar_counted a b s \<noteq> Some y"
      if "astar_W st a b R s" "pq_running s" "closed_cell (hval st b) y s" for s y
      using closed_cell_not_current [OF that(3)] by (simp add: astar_counted_def)
  qed
qed

text \<open>The neighbour lists that the refresh computes on a well-formed grid satisfy the
  condition: neighbours are adjacent cells of the grid, and the Manhattan distance to the
  end cell changes by one between adjacent cells.\<close>

lemma refreshed_consistent:
  assumes wf: "well_formed G st0"
    and st: "st = (\<lambda>r. if in_bounds (rows G) r then set_neighbors (rows G) st0 r else st0 r)"
  shows "consistent_on {r. in_bounds (rows G) r} st b"
  unfolding consistent_on_def
proof (intro ballI)
  fix u n
  assume u: "u \<in> {r. in_bounds (rows G) r}" and n: "n \<in> set (neighbors (st u))"
  have pos: "get_pos (st r) = r" if "in_bounds (rows G) r" for r
    using wf that by (cases r) (auto simp: st well_formed_def set_neighbors_def get_pos_def)
  from u n have n': "n \<in> set (open_neighbors (rows G) st0 u)"
    by (simp add: st set_neighbors_def)
  then have nb: "in_bounds (rows G) n" and nc: "n \<in> set (candidates u)"
    by (auto simp: open_neighbors_def)
  obtain x y where p: "get_pos (st b) = (x, y)" by (cases "get_pos (st b)") auto
  from u have hu: "hval st b u = nat (\<bar>fst u - x\<bar> + \<bar>snd u - y\<bar>)"
    by (simp add: hval_def pos p h_def manhattan_def)
  from nb have hn: "hval st b n = nat (\<bar>fst n - x\<bar> + \<bar>snd n - y\<bar>)"
    by (simp add: hval_def pos p h_def manhattan_def)
  from nc have "hval st b u \<le> hval st b n + 1"
    unfolding hu hn by (auto simp: candidates_def)
  with nb show "n \<in> {r. in_bounds (rows G) r} \<and> hval st b u \<le> hval st b n + 1" by simp
qed

lemma update_all_neighbors_eq:
  assumes "well_formed G st"
  shows "update_all_neighbors G st =
           Inr (\<lambda>r. if in_bounds (rows G) r then set_neighbors (rows G) st r else st r)"
proof -
  have g: "grid_nodes G = grid_refs (rows G)" using assms by (simp add: well_formed_def)
  have f: "row (st r) = fst r \<and> col (st r) = snd r \<and> total_rows (st r) = rows G"
    if "in_bounds (rows G) r" for r
    using assms that by (cases r) (auto simp: well_formed_def)
  have "update_all_neighbors G st =
          Inr (\<lambda>r. if r \<in> set (concat (grid_refs (rows G))) then set_neighbors (rows G) st r else st r)"
    unfolding update_all_neighbors_def g
  proof (rule update_all_foldl)
    show "set (concat (grid_refs (rows G))) \<subseteq> {r. in_bounds (rows G) r}"
      unfolding set_concat_grid_refs ..
  qed (rule f)
  then show ?thesis unfolding set_concat_grid_refs by simp
qed

lemma astar_counted_distinct_grid:
  assumes run: "runs pq_running (astar_step a b) (astar_init grid a b st) k"
    and wf: "well_formed G st0" and up: "update_all_neighbors G st0 = Inr st"
    and a: "in_bounds (rows G) a"
  shows "distinct (counted_cells (astar_counted a b) (astar_step a b) (astar_init grid a b st) k)"
proof -
  from up update_all_neighbors_eq [OF wf]
  have st: "st = (\<lambda>r. if in_bounds (rows G) r then set_neighbors (rows G) st0 r else st0 r)"
    by simp
  show ?thesis
    by (rule astar_counted_distinct [OF run refreshed_consistent [OF wf st]]) (simp add: a)
qed

lemma counted_cells_mem:
  assumes "x \<in> set (counted_cells f c s k)"
  shows "\<exists>i<k. f ((c ^^ i) s) = Some x"
  using assms by (auto simp: counted_cells_def List.map_filter_def)

lemma counted_not_start_end:
  "bfs_counted a b s = Some x \<Longrightarrow> x \<noteq> a \<and> x \<noteq> b"
  "dfs_counted a b t = Some x \<Longrightarrow> x \<noteq> a \<and> x \<noteq> b"
  "dijkstra_counted a b u = Some x \<Longrightarrow> x \<noteq> a \<and> x \<noteq> b"
  "astar_counted a b v = Some x \<Longrightarrow> x \<noteq> a \<and> x \<noteq> b"
  by (auto simp: bfs_counted_def bfs_counts_def dfs_counted_def dfs_counts_def
      dijkstra_counted_def dijkstra_counts_def astar_counted_def astar_counts_def pq_current_def
      split: if_splits option.splits)

lemma counted_iff_counts:
  "(bfs_counted a b s \<noteq> None) = bfs_counts a b s"
  "(dfs_counted a b t \<noteq> None) = dfs_counts a b t"
  "(dijkstra_counted a b u \<noteq> None) = dijkstra_counts a b u"
  "(astar_counted a b v \<noteq> None) = astar_counts a b v"
  by (auto simp: bfs_counted_def dfs_counted_def
      dijkstra_counted_def dijkstra_counts_def astar_counted_def astar_counts_def pq_current_def
      split: if_splits option.splits)

lemma bfs_count_cells:
  assumes "bfs sigs grid a b st = Some (st', (found, vc, pl))"
  shows "\<exists>k. runs bfs_running (bfs_step a b) (bfs_init a st) k \<and>
           (\<not> bfs_running ((bfs_step a b ^^ k) (bfs_init a st)) \<or> k < length sigs \<and> sigs ! k = Quit) \<and>
           vc = length (counted_cells (bfs_counted a b) (bfs_step a b) (bfs_init a st) k) \<and>
           distinct (counted_cells (bfs_counted a b) (bfs_step a b) (bfs_init a st) k) \<and>
           a \<notin> set (counted_cells (bfs_counted a b) (bfs_step a b) (bfs_init a st) k) \<and>
           b \<notin> set (counted_cells (bfs_counted a b) (bfs_step a b) (bfs_init a st) k)"
proof -
  from visited_count_is_expansions [of sigs grid a b st st' found vc pl] assms
  obtain k where k: "runs bfs_running (bfs_step a b) (bfs_init a st) k"
    "\<not> bfs_running ((bfs_step a b ^^ k) (bfs_init a st)) \<or> k < length sigs \<and> sigs ! k = Quit"
    "vc = expansions (bfs_counts a b) (bfs_step a b) (bfs_init a st) k" by blast
  let ?L = "counted_cells (bfs_counted a b) (bfs_step a b) (bfs_init a st) k"
  have "vc = length ?L"
    unfolding k(3) by (rule length_counted_cells [symmetric]) (rule counted_iff_counts)
  moreover have "distinct ?L" by (rule bfs_counted_distinct [OF k(1)])
  moreover have "a \<notin> set ?L" "b \<notin> set ?L"
    using counted_cells_mem [of _ "bfs_counted a b"] counted_not_start_end(1) by blast+
  ultimately show ?thesis using k(1,2) by blast
qed

lemma dfs_count_cells:
  assumes "dfs sigs grid a b st = Some (st', (found, vc, pl))"
  shows "\<exists>k. runs dfs_running (dfs_step a b) (dfs_init a st) k \<and>
           (\<not> dfs_running ((dfs_step a b ^^ k) (dfs_init a st)) \<or> k < length sigs \<and> sigs ! k = Quit) \<and>
           vc = length (counted_cells (dfs_counted a b) (dfs_step a b) (dfs_init a st) k) \<and>
           distinct (counted_cells (dfs_counted a b) (dfs_step a b) (dfs_init a st) k) \<and>
           a \<notin> set (counted_cells (dfs_counted a b) (dfs_step a b) (dfs_init a st) k) \<and>
           b \<notin> set (counted_cells (dfs_counted a b) (dfs_step a b) (dfs_init a st) k)"
proof -
  from visited_count_is_expansions [of sigs grid a b st st' found vc pl] assms
  obtain k where k: "runs dfs_running (dfs_step a b) (dfs_init a st) k"
    "\<not> dfs_running ((dfs_step a b ^^ k) (dfs_init a st)) \<or> k < length sigs \<and> sigs ! k = Quit"
    "vc = expansions (dfs_counts a b) (dfs_step a b) (dfs_init a st) k" by blast
  let ?L = "counted_cells (dfs_counted a b) (dfs_step a b) (dfs_init a st) k"
  have "vc = length ?L"
    unfolding k(3) by (rule length_counted_cells [symmetric]) (rule counted_iff_counts)
  moreover have "distinct ?L" by (rule dfs_counted_distinct [OF k(1)])
  moreover have "a \<notin> set ?L" "b \<notin> set ?L"
    using counted_cells_mem [of _ "dfs_counted a b"] counted_not_start_end(2) by blast+
  ultimately show ?thesis using k(1,2) by blast
qed

lemma dijkstra_count_cells:
  assumes "dijkstra sigs grid a b st = Some (st', Inr (found, vc, pl))"
  shows "\<exists>k. runs pq_running (dijkstra_step a b) (dijkstra_init grid a st) k \<and>
           (\<not> pq_running ((dijkstra_step a b ^^ k) (dijkstra_init grid a st)) \<or>
              k < length sigs \<and> sigs ! k = Quit) \<and>
           vc = length (counted_cells (dijkstra_counted a b) (dijkstra_step a b) (dijkstra_init grid a st) k) \<and>
           distinct (counted_cells (dijkstra_counted a b) (dijkstra_step a b) (dijkstra_init grid a st) k) \<and>
           a \<notin> set (counted_cells (dijkstra_counted a b) (dijkstra_step a b) (dijkstra_init grid a st) k) \<and>
           b \<notin> set (counted_cells (dijkstra_counted a b) (dijkstra_step a b) (dijkstra_init grid a st) k)"
proof -
  from visited_count_is_expansions [of sigs grid a b st st' found vc pl] assms
  obtain k where k: "runs pq_running (dijkstra_step a b) (dijkstra_init grid a st) k"
    "\<not> pq_running ((dijkstra_step a b ^^ k) (dijkstra_init grid a st)) \<or>
       k < length sigs \<and> sigs ! k = Quit"
    "vc = expansions (dijkstra_counts a b) (dijkstra_step a b) (dijkstra_init grid a st) k" by blast
  let ?L = "counted_cells (dijkstra_counted a b) (dijkstra_step a b) (dijkstra_init grid a st) k"
  have "vc = length ?L"
    unfolding k(3) by (rule length_counted_cells [symmetric]) (rule counted_iff_counts)
  moreover have "distinct ?L" by (rule dijkstra_counted_distinct [OF k(1)])
  moreover have "a \<notin> set ?L" "b \<notin> set ?L"
    using counted_cells_mem [of _ "dijkstra_counted a b"] counted_not_start_end(3) by blast+
  ultimately show ?thesis using k(1,2) by blast
qed

lemma astar_count_cells:
  assumes "astar sigs grid a b st = Some (st', Inr (found, vc, pl))"
  shows "\<exists>k. runs pq_running (astar_step a b) (astar_init grid a b st) k \<and>
           (\<not> pq_running ((astar_step a b ^^ k) (astar_init grid a b st)) \<or>
              k < length sigs \<and> sigs ! k = Quit) \<and>
           vc = length (counted_cells (astar_counted a b) (astar_step a b) (astar_init grid a b st) k) \<and>
           (well_formed G st0 \<and> update_all_neighbors G st0 = Inr st \<and> in_bounds (rows G) a \<longrightarrow>
              distinct (counted_cells (astar_counted a b) (astar_step a b) (astar_init grid a b st) k)) \<and>
           a \<notin> set (counted_cells (astar_counted a b) (astar_step a b) (astar_init grid a b st) k) \<and>
           b \<notin> set (counted_cells (astar_counted a b) (astar_step a b) (astar_init grid a b st) k)"
proof -
  from visited_count_is_expansions [of sigs grid a b st st' found vc pl] assms
  obtain k where k: "runs pq_running (astar_step a b) (astar_init grid a b st) k"
    "\<not> pq_running ((astar_step a b ^^ k) (astar_init grid a b st)) \<or>
       k < length sigs \<and> sigs ! k = Quit"
    "vc = expansions (astar_counts a b) (astar_step a b) (astar_init grid a b st) k" by blast
  let ?L = "counted_cells (astar_counted a b) (astar_step a b) (astar_init grid a b st) k"
  have "vc = length ?L"
    unfolding k(3) by (rule length_counted_cells [symmetric]) (rule counted_iff_counts)
  moreover have "well_formed G st0 \<and> update_all_neighbors G st0 = Inr st \<and> in_bounds (rows G) a \<longrightarrow>
      distinct ?L"
    using astar_counted_distinct_grid [OF k(1)] by blast
  moreover have "a \<notin> set ?L" "b \<notin> set ?L"
    using counted_cells_mem [of _ "astar_counted a b"] counted_not_start_end(4) by blast+
  ultimately show ?thesis using k(1,2) by blast
qed

text \<open>
  Claim C4.  Whenever an algorithm returns a result (found, exhausted or cancelled), the
  visited count it reports is the number of cells that were popped from the frontier and
  processed, start and end excluded.  With \<open>k\<close> the number of iterations the loop
  performed, \<open>counted_cells\<close> lists, iteration by iteration, the dequeued cell whenever the
  iteration expands it (it is not the end cell and, for the priority queues, its entry is
  not stale) and it is neither the start nor the end cell.  The reported count is the length
  of that list; the list holds neither the start nor the end cell; and no cell occurs in it
  twice, so every such cell is counted exactly once, at its expansion.  For BFS, DFS and
  Dijkstra this holds on every store; for A* the cells are pairwise different on every store
  that the neighbour refresh has produced from a well-formed grid with the start cell in the
  grid, which is the store the start button hands to the algorithm.
\<close>

theorem visited_count_rule:
  "(bfs sigs grid a b st = Some (st', (found, vc, pl)) \<longrightarrow>
      (\<exists>k. runs bfs_running (bfs_step a b) (bfs_init a st) k \<and>
           (\<not> bfs_running ((bfs_step a b ^^ k) (bfs_init a st)) \<or> k < length sigs \<and> sigs ! k = Quit) \<and>
           vc = length (counted_cells (bfs_counted a b) (bfs_step a b) (bfs_init a st) k) \<and>
           distinct (counted_cells (bfs_counted a b) (bfs_step a b) (bfs_init a st) k) \<and>
           a \<notin> set (counted_cells (bfs_counted a b) (bfs_step a b) (bfs_init a st) k) \<and>
           b \<notin> set (counted_cells (bfs_counted a b) (bfs_step a b) (bfs_init a st) k))) \<and>
   (dfs sigs grid a b st = Some (st', (found, vc, pl)) \<longrightarrow>
      (\<exists>k. runs dfs_running (dfs_step a b) (dfs_init a st) k \<and>
           (\<not> dfs_running ((dfs_step a b ^^ k) (dfs_init a st)) \<or> k < length sigs \<and> sigs ! k = Quit) \<and>
           vc = length (counted_cells (dfs_counted a b) (dfs_step a b) (dfs_init a st) k) \<and>
           distinct (counted_cells (dfs_counted a b) (dfs_step a b) (dfs_init a st) k) \<and>
           a \<notin> set (counted_cells (dfs_counted a b) (dfs_step a b) (dfs_init a st) k) \<and>
           b \<notin> set (counted_cells (dfs_counted a b) (dfs_step a b) (dfs_init a st) k))) \<and>
   (dijkstra sigs grid a b st = Some (st', Inr (found, vc, pl)) \<longrightarrow>
      (\<exists>k. runs pq_running (dijkstra_step a b) (dijkstra_init grid a st) k \<and>
           (\<not> pq_running ((dijkstra_step a b ^^ k) (dijkstra_init grid a st)) \<or>
              k < length sigs \<and> sigs ! k = Quit) \<and>
           vc = length (counted_cells (dijkstra_counted a b) (dijkstra_step a b) (dijkstra_init grid a st) k) \<and>
           distinct (counted_cells (dijkstra_counted a b) (dijkstra_step a b) (dijkstra_init grid a st) k) \<and>
           a \<notin> set (counted_cells (dijkstra_counted a b) (dijkstra_step a b) (dijkstra_init grid a st) k) \<and>
           b \<notin> set (counted_cells (dijkstra_counted a b) (dijkstra_step a b) (dijkstra_init grid a st) k))) \<and>
   (astar sigs grid a b st = Some (st', Inr (found, vc, pl)) \<longrightarrow>
      (\<exists>k. runs pq_running (astar_step a b) (astar_init grid a b st) k \<and>
           (\<not> pq_running ((astar_step a b ^^ k) (astar_init grid a b st)) \<or>
              k < length sigs \<and> sigs ! k = Quit) \<and>
           vc = length (counted_cells (astar_counted a b) (astar_step a b) (astar_init grid a b st) k) \<and>
           (well_formed G st0 \<and> update_all_neighbors G st0 = Inr st \<and> in_bounds (rows G) a \<longrightarrow>
              distinct (counted_cells (astar_counted a b) (astar_step a b) (astar_init grid a b st) k)) \<and>
           a \<notin> set (counted_cells (astar_counted a b) (astar_step a b) (astar_init grid a b st) k) \<and>
           b \<notin> set (counted_cells (astar_counted a b) (astar_step a b) (astar_init grid a b st) k)))"
  by (intro conjI impI) (erule bfs_count_cells dfs_count_cells dijkstra_count_cells astar_count_cells)+

lemma demo_runs:
  "\<exists>st'. bfs [] (grid_refs 2) (0, 0) (1, 1) (grid_store 2 [] (0, 0) (1, 1)) = Some (st', (True, 2, 2))"
  "\<exists>st'. dfs [] (grid_refs 2) (0, 0) (1, 1) (grid_store 2 [] (0, 0) (1, 1)) = Some (st', (True, 1, 2))"
  "\<exists>st'. dijkstra [] (grid_refs 2) (0, 0) (1, 1) (grid_store 2 [] (0, 0) (1, 1))
           = Some (st', Inr (True, 2, 2))"
  "\<exists>st'. astar [] (grid_refs 2) (0, 0) (1, 1) (grid_store 2 [] (0, 0) (1, 1))
           = Some (st', Inr (True, 2, 2))"
proof -
  have "map_option snd (bfs [] (grid_refs 2) (0, 0) (1, 1) (grid_store 2 [] (0, 0) (1, 1)))
          = Some (True, 2, 2)"
    by code_simp
  then show "\<exists>st'. bfs [] (grid_refs 2) (0, 0) (1, 1) (grid_store 2 [] (0, 0) (1, 1))
      = Some (st', (True, 2, 2))" by auto
  have "map_option snd (dfs [] (grid_refs 2) (0, 0) (1, 1) (grid_store 2 [] (0, 0) (1, 1)))
          = Some (True, 1, 2)"
    by code_simp
  then show "\<exists>st'. dfs [] (grid_refs 2) (0, 0) (1, 1) (grid_store 2 [] (0, 0) (1, 1))
      = Some (st', (True, 1, 2))" by auto
  have "map_option snd (dijkstra [] (grid_refs 2) (0, 0) (1, 1) (grid_store 2 [] (0, 0) (1, 1)))
          = Some (Inr (True, 2, 2))"
    by code_simp
  then show "\<exists>st'. dijkstra [] (grid_refs 2) (0, 0) (1, 1) (grid_store 2 [] (0, 0) (1, 1))
      = Some (st', Inr (True, 2, 2))" by auto
  have "map_option snd (astar [] (grid_refs 2) (0, 0) (1, 1) (grid_store 2 [] (0, 0) (1, 1)))
          = Some (Inr (True, 2, 2))"
    by code_simp
  then show "\<exists>st'. astar [] (grid_refs 2) (0, 0) (1, 1) (grid_store 2 [] (0, 0) (1, 1))
      = Some (st', Inr (True, 2, 2))" by auto
qed

lemma demo_grid:
  "well_formed \<lparr>rows = 2, width = 600, gap = 300, grid_nodes = grid_refs 2\<rparr> (marked 2 [] (0, 0) (1, 1))"
  "update_all_neighbors \<lparr>rows = 2, width = 600, gap = 300, grid_nodes = grid_refs 2\<rparr>
     (marked 2 [] (0, 0) (1, 1)) = Inr (grid_store 2 [] (0, 0) (1, 1))"
proof -
  show wf: "well_formed \<lparr>rows = 2, width = 600, gap = 300, grid_nodes = grid_refs 2\<rparr>
      (marked 2 [] (0, 0) (1, 1))"
    by (simp add: well_formed_def marked_def Node_init_def)
  show "update_all_neighbors \<lparr>rows = 2, width = 600, gap = 300, grid_nodes = grid_refs 2\<rparr>
     (marked 2 [] (0, 0) (1, 1)) = Inr (grid_store 2 [] (0, 0) (1, 1))"
    unfolding update_all_neighbors_eq [OF wf] grid_store_def by (simp cong del: if_weak_cong)
qed

theorem visited_count_rule_witness:
  "(\<exists>st' k. bfs [] (grid_refs 2) (0, 0) (1, 1) (grid_store 2 [] (0, 0) (1, 1)) = Some (st', (True, 2, 2)) \<and>
      2 = length (counted_cells (bfs_counted (0, 0) (1, 1)) (bfs_step (0, 0) (1, 1))
                    (bfs_init (0, 0) (grid_store 2 [] (0, 0) (1, 1))) k) \<and>
      distinct (counted_cells (bfs_counted (0, 0) (1, 1)) (bfs_step (0, 0) (1, 1))
                    (bfs_init (0, 0) (grid_store 2 [] (0, 0) (1, 1))) k)) \<and>
   (\<exists>st' k. dfs [] (grid_refs 2) (0, 0) (1, 1) (grid_store 2 [] (0, 0) (1, 1)) = Some (st', (True, 1, 2)) \<and>
      1 = length (counted_cells (dfs_counted (0, 0) (1, 1)) (dfs_step (0, 0) (1, 1))
                    (dfs_init (0, 0) (grid_store 2 [] (0, 0) (1, 1))) k) \<and>
      distinct (counted_cells (dfs_counted (0, 0) (1, 1)) (dfs_step (0, 0) (1, 1))
                    (dfs_init (0, 0) (grid_store 2 [] (0, 0) (1, 1))) k)) \<and>
   (\<exists>st' k. dijkstra [] (grid_refs 2) (0, 0) (1, 1) (grid_store 2 [] (0, 0) (1, 1))
               = Some (st', Inr (True, 2, 2)) \<and>
      2 = length (counted_cells (dijkstra_counted (0, 0) (1, 1)) (dijkstra_step (0, 0) (1, 1))
                    (dijkstra_init (grid_refs 2) (0, 0) (grid_store 2 [] (0, 0) (1, 1))) k) \<and>
      distinct (counted_cells (dijkstra_counted (0, 0) (1, 1)) (dijkstra_step (0, 0) (1, 1))
                    (dijkstra_init (grid_refs 2) (0, 0) (grid_store 2 [] (0, 0) (1, 1))) k)) \<and>
   well_formed \<lparr>rows = 2, width = 600, gap = 300, grid_nodes = grid_refs 2\<rparr> (marked 2 [] (0, 0) (1, 1)) \<and>
   update_all_neighbors \<lparr>rows = 2, width = 600, gap = 300, grid_nodes = grid_refs 2\<rparr>
     (marked 2 [] (0, 0) (1, 1)) = Inr (grid_store 2 [] (0, 0) (1, 1)) \<and>
   in_bounds 2 (0, 0) \<and>
   (\<exists>st' k. astar [] (grid_refs 2) (0, 0) (1, 1) (grid_store 2 [] (0, 0) (1, 1))
               = Some (st', Inr (True, 2, 2)) \<and>
      2 = length (counted_cells (astar_counted (0, 0) (1, 1)) (astar_step (0, 0) (1, 1))
                    (astar_init (grid_refs 2) (0, 0) (1, 1) (grid_store 2 [] (0, 0) (1, 1))) k) \<and>
      distinct (counted_cells (astar_counted (0, 0) (1, 1)) (astar_step (0, 0) (1, 1))
                    (astar_init (grid_refs 2) (0, 0) (1, 1) (grid_store 2 [] (0, 0) (1, 1))) k))"
proof -
  let ?G = "\<lparr>rows = 2, width = 600, gap = 300, grid_nodes = grid_refs 2\<rparr>"
  let ?st = "grid_store 2 [] (0, 0) (1, 1)"
  have ib: "in_bounds (rows ?G) (0, 0)" "in_bounds 2 (0, 0)" by (simp_all add: in_bounds_def)
  obtain s1 where d1: "bfs [] (grid_refs 2) (0, 0) (1, 1) ?st = Some (s1, (True, 2, 2))"
    using demo_runs(1) by blast
  obtain s2 where d2: "dfs [] (grid_refs 2) (0, 0) (1, 1) ?st = Some (s2, (True, 1, 2))"
    using demo_runs(2) by blast
  obtain s3 where d3: "dijkstra [] (grid_refs 2) (0, 0) (1, 1) ?st = Some (s3, Inr (True, 2, 2))"
    using demo_runs(3) by blast
  obtain s4 where d4: "astar [] (grid_refs 2) (0, 0) (1, 1) ?st = Some (s4, Inr (True, 2, 2))"
    using demo_runs(4) by blast
  have 1: "\<exists>st' k. bfs [] (grid_refs 2) (0, 0) (1, 1) ?st = Some (st', (True, 2, 2)) \<and>
      2 = length (counted_cells (bfs_counted (0, 0) (1, 1)) (bfs_step (0, 0) (1, 1))
                    (bfs_init (0, 0) ?st) k) \<and>
      distinct (counted_cells (bfs_counted (0, 0) (1, 1)) (bfs_step (0, 0) (1, 1))
                    (bfs_init (0, 0) ?st) k)"
    using visited_count_rule
      [where sigs = "[]" and grid = "grid_refs 2" and a = "(0, 0)" and b = "(1, 1)"
         and st = ?st and st' = s1 and found = True and vc = 2 and pl = 2,
       THEN conjunct1, rule_format, OF d1] d1 by blast
  have 2: "\<exists>st' k. dfs [] (grid_refs 2) (0, 0) (1, 1) ?st = Some (st', (True, 1, 2)) \<and>
      1 = length (counted_cells (dfs_counted (0, 0) (1, 1)) (dfs_step (0, 0) (1, 1))
                    (dfs_init (0, 0) ?st) k) \<and>
      distinct (counted_cells (dfs_counted (0, 0) (1, 1)) (dfs_step (0, 0) (1, 1))
                    (dfs_init (0, 0) ?st) k)"
    using visited_count_rule
      [where sigs = "[]" and grid = "grid_refs 2" and a = "(0, 0)" and b = "(1, 1)"
         and st = ?st and st' = s2 and found = True and vc = 1 and pl = 2,
       THEN conjunct2, THEN conjunct1, rule_format, OF d2] d2 by blast
  have 3: "\<exists>st' k. dijkstra [] (grid_refs 2) (0, 0) (1, 1) ?st = Some (st', Inr (True, 2, 2)) \<and>
      2 = length (counted_cells (dijkstra_counted (0, 0) (1, 1)) (dijkstra_step (0, 0) (1, 1))
                    (dijkstra_init (grid_refs 2) (0, 0) ?st) k) \<and>
      distinct (counted_cells (dijkstra_counted (0, 0) (1, 1)) (dijkstra_step (0, 0) (1, 1))
                    (dijkstra_init (grid_refs 2) (0, 0) ?st) k)"
    using visited_count_rule
      [where sigs = "[]" and grid = "grid_refs 2" and a = "(0, 0)" and b = "(1, 1)"
         and st = ?st and st' = s3 and found = True and vc = 2 and pl = 2,
       THEN conjunct2, THEN conjunct2, THEN conjunct1, rule_format, OF d3] d3 by blast
  have 4: "\<exists>st' k. astar [] (grid_refs 2) (0, 0) (1, 1) ?st = Some (st', Inr (True, 2, 2)) \<and>
      2 = length (counted_cells (astar_counted (0, 0) (1, 1)) (astar_step (0, 0) (1, 1))
                    (astar_init (grid_refs 2) (0, 0) (1, 1) ?st) k) \<and>
      distinct (counted_cells (astar_counted (0, 0) (1, 1)) (astar_step (0, 0) (1, 1))
                    (astar_init (grid_refs 2) (0, 0) (1, 1) ?st) k)"
    using visited_count_rule
      [where sigs = "[]" and grid = "grid_refs 2" and a = "(0, 0)" and b = "(1, 1)"
         and st = ?st and st' = s4 and found = True and vc = 2 and pl = 2
         and G = ?G and ?st0.0 = "marked 2 [] (0, 0) (1, 1)",
       THEN conjunct2, THEN conjunct2, THEN conjunct2, rule_format, OF d4]
      d4 demo_grid ib(1) by blast
  show ?thesis by (intro conjI) (rule 1 2 3 4 demo_grid ib(2))+
qed

end
